theory Spec2Isabelle
  imports Main "HOL-Library.Word"
begin

unbundle bit_operations_syntax

section \<open>Data model of sudoku.c\<close>

text \<open>
  The C program keeps every quantity in an \<open>int\<close>.  Sizes, coordinates and square
  values never leave the range \<open>0 .. MAX_N2\<close> in the code paths modelled here, so they are
  natural numbers; \<open>topmask\<close> is an integer because the code uses \<open>-1\<close> for "no candidate
  frame".  A bit mask is a \<open>uint64_t\<close>.
\<close>

definition MAX_N :: nat where
  "MAX_N = 6"

definition MAX_N2 :: nat where
  "MAX_N2 = MAX_N * MAX_N"

definition MAX_NUM_SQUARES :: nat where
  "MAX_NUM_SQUARES = MAX_N2 * MAX_N2"

definition MAX_NUM_NEIGHBORS :: nat where
  "MAX_NUM_NEIGHBORS = 3 * MAX_N2 - 2 * MAX_N - 1"

type_synonym Bitmask = "64 word"

text \<open>
  \<open>neighbors\<close> pairs the arrays \<open>neighbor_i\<close> and \<open>neighbor_j\<close>: entry \<open>k\<close> of the list is
  \<open>(neighbor_i[k], neighbor_j[k])\<close> for \<open>k < num_neighbors\<close>.  \<open>candidate\<close> is the array
  of stacked masks, read at an index; \<open>topmask\<close> indexes its top.
\<close>

record Square =
  cur_value :: nat
  frozen :: bool
  neighbors :: "(nat \<times> nat) list"
  candidate :: "nat \<Rightarrow> Bitmask"
  topmask :: int
  num_candidates :: nat

record Game_Stats =
  num_occupied_squares_originally :: nat
  sum_num_candidates_originally :: nat
  num_frozen_as_only_candidate :: nat
  num_frozen_by_row_optimization :: nat
  num_frozen_by_column_optimization :: nat
  num_frozen_by_subsquare_optimization :: nat
  sum_num_candidates_after_optimization :: nat
  num_unstackings :: nat

record Game =
  N :: nat
  N2 :: nat
  num_squares :: nat
  num_neighbors :: nat
  board :: "nat \<times> nat \<Rightarrow> Square"
  saved_board :: "nat \<times> nat \<Rightarrow> Square"
  stats :: Game_Stats

text \<open>
  How a run can stop other than by returning: \<open>exit(1)\<close> after a message about the input
  file, a failed \<open>assert\<close>, and an array access outside the array.
\<close>

datatype error = Format_Error | Assertion_Failed | Out_Of_Bounds

section \<open>Single-bit masks\<close>

text \<open>
  \<open>init_bit_mask_array\<close> fills \<open>b[0..63]\<close> by shifting \<open>0x8000000000000000\<close> right once
  per entry; \<open>bit(i)\<close> returns \<open>b[i-1]\<close>.  The function asserts \<open>1 \<le> i \<le> 64\<close>; every
  caller passes a value of the alphabet \<open>1 .. N2\<close>.
\<close>

definition init_bit_mask_array :: "nat \<Rightarrow> Bitmask" where
  "init_bit_mask_array i = drop_bit i (0x8000000000000000 :: Bitmask)"

definition bit_of :: "nat \<Rightarrow> Bitmask" where
  "bit_of i = init_bit_mask_array (i - 1)"

section \<open>The alphabet\<close>

definition mapToInt :: string where
  "mapToInt = ''-1234567890ABCDEFGHIJKLMNOPQRSTUVWXYZabcdefghijklmnopqrstuvwxyz#$''"

definition map_alphabet_to_int :: "char \<Rightarrow> int" where
  "map_alphabet_to_int c =
     (let n = (of_char c :: int) in
      if of_char CHR ''1'' \<le> n \<and> n \<le> of_char CHR ''9'' then n - of_char CHR ''1'' + 1
      else if of_char CHR ''0'' = n then 10
      else if of_char CHR ''A'' \<le> n \<and> n \<le> of_char CHR ''Z'' then n - of_char CHR ''A'' + 11
      else if of_char CHR ''a'' \<le> n \<and> n \<le> of_char CHR ''z'' then n - of_char CHR ''a'' + 37
      else if of_char CHR ''#'' = n then 63
      else if of_char CHR ''$'' = n then 64
      else - 1)"

text \<open>
  \<open>mapToInt\<close> is a \<open>char[66]\<close> holding the 65 characters above and the terminating NUL.
\<close>

definition map_int_to_alphabet :: "Game \<Rightarrow> int \<Rightarrow> error + char" where
  "map_int_to_alphabet G i =
     (if 0 \<le> i \<and> i \<le> int (N2 G) then
        (if nat i < length mapToInt then Inr (mapToInt ! nat i)
         else if nat i = length mapToInt then Inr (char_of (0 :: nat))
         else Inl Out_Of_Bounds)
      else Inl Assertion_Failed)"

section \<open>Board initialisation\<close>

definition find_sub_square :: "Game \<Rightarrow> nat \<Rightarrow> nat \<Rightarrow> nat \<times> nat" where
  "find_sub_square G row col =
     (N G * ((row - 1) div N G) + 1, N G * ((col - 1) div N G) + 1)"

text \<open>
  The three loops of \<open>init_board\<close> that fill the neighbor arrays of square \<open>(i, j)\<close>, in the
  order of the code: the squares of the same column, of the same row, and the squares
  of the subsquare that are in another row and another column.
\<close>

definition column_neighbors :: "Game \<Rightarrow> nat \<Rightarrow> nat \<Rightarrow> (nat \<times> nat) list" where
  "column_neighbors G i j = map (\<lambda>ii. (ii, j)) (filter (\<lambda>ii. ii \<noteq> i) [1..<Suc (N2 G)])"

definition row_neighbors :: "Game \<Rightarrow> nat \<Rightarrow> nat \<Rightarrow> (nat \<times> nat) list" where
  "row_neighbors G i j = map (\<lambda>jj. (i, jj)) (filter (\<lambda>jj. jj \<noteq> j) [1..<Suc (N2 G)])"

definition subsquare_neighbors :: "Game \<Rightarrow> nat \<Rightarrow> nat \<Rightarrow> (nat \<times> nat) list" where
  "subsquare_neighbors G i j =
     (case find_sub_square G i j of (srow, scol) \<Rightarrow>
        List.product (filter (\<lambda>ii. ii \<noteq> i) [srow..<srow + N G])
                     (filter (\<lambda>jj. jj \<noteq> j) [scol..<scol + N G]))"

definition neighbor_list :: "Game \<Rightarrow> nat \<Rightarrow> nat \<Rightarrow> (nat \<times> nat) list" where
  "neighbor_list G i j =
     (if i = 0 \<or> j = 0 then []
      else column_neighbors G i j @ row_neighbors G i j @ subsquare_neighbors G i j)"

definition zero_stats :: Game_Stats where
  "zero_stats = \<lparr> num_occupied_squares_originally = 0,
                  sum_num_candidates_originally = 0,
                  num_frozen_as_only_candidate = 0,
                  num_frozen_by_row_optimization = 0,
                  num_frozen_by_column_optimization = 0,
                  num_frozen_by_subsquare_optimization = 0,
                  sum_num_candidates_after_optimization = 0,
                  num_unstackings = 0 \<rparr>"

text \<open>
  \<open>clear_candidates\<close> is the loop \<open>for (k = 0; k < num_neighbors; ++k) candidate[k] = 0\<close>.
\<close>

definition clear_candidates :: "Game \<Rightarrow> (nat \<Rightarrow> Bitmask) \<Rightarrow> nat \<Rightarrow> Bitmask" where
  "clear_candidates G c = (\<lambda>k. if k < num_neighbors G then 0 else c k)"

text \<open>
  \<open>init_board\<close> writes the squares with both indices in \<open>0 .. N2\<close> and leaves the rest of the
  array and \<open>saved_board\<close> as they were.  The squares of row 0 and column 0 are not used;
  the code fills their neighbor arrays with \<open>-1\<close> and never reads them, the model gives
  them no neighbors.  The final \<open>assert\<close> compares the count left by the last square
  \<open>(N2, N2)\<close>; for \<open>n = 0\<close> the counter is never assigned.  The arrays of the game are
  \<open>board[MAX_N2+1][MAX_N2+1]\<close> and, in every square, \<open>neighbor_i\<close>, \<open>neighbor_j\<close> and
  \<open>candidate\<close> of \<open>MAX_NUM_NEIGHBORS\<close> entries: with \<open>n > MAX_N\<close> the loops write outside
  them, which the model reports as \<open>Out_Of_Bounds\<close>.
\<close>

definition init_board :: "Game \<Rightarrow> nat \<Rightarrow> error + Game" where
  "init_board G n =
     (let G1 = G \<lparr> N := n, N2 := n * n, num_squares := (n * n) * (n * n),
                  num_neighbors := 3 * (n * n) - 2 * n - 1 \<rparr>;
          G2 = G1 \<lparr> board := (\<lambda>(i, j).
                  if i \<le> N2 G1 \<and> j \<le> N2 G1 then
                    \<lparr> cur_value = 0, frozen = False,
                      neighbors = neighbor_list G1 i j,
                      candidate = clear_candidates G1 (candidate (board G (i, j))),
                      topmask = - 1, num_candidates = 0 \<rparr>
                  else board G (i, j)) \<rparr>
      in if MAX_N < n then Inl Out_Of_Bounds
         else if n = 0 \<or> length (neighbor_list G1 (N2 G1) (N2 G1)) \<noteq> num_neighbors G1
         then Inl Assertion_Failed
         else Inr (G2 \<lparr> stats := zero_stats \<rparr>))"

text \<open>
  The global \<open>Game game\<close> has static storage, so it starts with every byte zero.
\<close>

definition zero_square :: Square where
  "zero_square = \<lparr> cur_value = 0, frozen = False, neighbors = [],
                    candidate = (\<lambda>k. 0), topmask = 0, num_candidates = 0 \<rparr>"

definition game :: Game where
  "game = \<lparr> N = 0, N2 = 0, num_squares = 0, num_neighbors = 0,
             board = (\<lambda>c. zero_square), saved_board = (\<lambda>c. zero_square),
             stats = zero_stats \<rparr>"

section \<open>Loading the puzzle\<close>

text \<open>
  The input file is the sequence of its characters.  \<open>fgets (linebuff, LINESIZE, infp)\<close>
  stores at most \<open>LINESIZE - 1\<close> of them, stopping after a newline, and returns \<open>NULL\<close> when
  the file is at its end: \<open>fgets_take n\<close> is the pair of the characters stored and the rest
  of the file.  What \<open>fgets\<close> has stored is then read as a C string, which ends at the
  first NUL (\<open>c_str\<close>).  \<open>isspace\<close> and \<open>isdigit\<close> are those of the C library in the C
  locale.  \<open>atoi\<close> is \<open>(int) strtol (s, NULL, 10)\<close>, as in the GNU C library: \<open>strtol\<close>
  skips white space, reads a sign and the digits and clamps the number to the 64-bit
  \<open>long\<close>; the conversion to the 32-bit \<open>int\<close> keeps the low 32 bits.
\<close>

definition LINESIZE :: nat where
  "LINESIZE = 500"

fun fgets_take :: "nat \<Rightarrow> string \<Rightarrow> string \<times> string" where
  "fgets_take 0 cs = ([], cs)"
| "fgets_take (Suc n) [] = ([], [])"
| "fgets_take (Suc n) (c # cs) =
     (if c = CHR 0x0A then ([c], cs)
      else case fgets_take n cs of (l, r) \<Rightarrow> (c # l, r))"

definition fgets :: "nat \<Rightarrow> string \<Rightarrow> (string \<times> string) option" where
  "fgets sz infp = (if infp = [] then None else Some (fgets_take (sz - 1) infp))"

definition c_str :: "string \<Rightarrow> string" where
  "c_str buf = takeWhile (\<lambda>c. c \<noteq> CHR 0x00) buf"

definition isspace :: "char \<Rightarrow> bool" where
  "isspace c = (let n = (of_char c :: nat) in n = 32 \<or> (9 \<le> n \<and> n \<le> 13))"

definition isdigit :: "char \<Rightarrow> bool" where
  "isdigit c = (let n = (of_char c :: nat) in 48 \<le> n \<and> n \<le> 57)"

definition digits_value :: "string \<Rightarrow> int" where
  "digits_value s = foldl (\<lambda>a c. 10 * a + (of_char c - 48)) 0 (takeWhile isdigit s)"

definition strtol :: "string \<Rightarrow> int" where
  "strtol s =
     (case dropWhile isspace s of
        [] \<Rightarrow> 0
      | c # r \<Rightarrow>
          if c = CHR ''-'' then max (- (2 ^ 63)) (- digits_value r)
          else if c = CHR ''+'' then min (2 ^ 63 - 1) (digits_value r)
          else min (2 ^ 63 - 1) (digits_value (c # r)))"

definition atoi :: "string \<Rightarrow> int" where
  "atoi s = sint (word_of_int (strtol s) :: 32 word)"

text \<open>
  \<open>trim\<close> is the loop of \<open>get_line\<close> that overwrites the trailing white space of
  \<open>linebuff\<close> with NULs.
\<close>

definition trim :: "string \<Rightarrow> string" where
  "trim s = rev (dropWhile isspace (rev s))"

text \<open>
  \<open>get_line\<close> returns the game (replaced when a \<open>//N=d\<close> line was processed), the line
  with its trailing white space removed, and the rest of the file.  Every call of \<open>fgets\<close>
  that does not return \<open>NULL\<close> takes at least one character from the file, so the loop
  ends.
\<close>

function get_line :: "Game \<Rightarrow> bool \<Rightarrow> string \<Rightarrow> error + (Game \<times> string \<times> string)" where
  "get_line G allowN infp =
     (case fgets LINESIZE infp of
        None \<Rightarrow> Inl Format_Error
      | Some (linebuff, infp') \<Rightarrow>
          (let l = c_str linebuff in
           if take 2 l = ''//'' then
             (if \<not> allowN then get_line G allowN infp'
              else if take 2 (drop 2 l) \<noteq> ''N='' then get_line G allowN infp'
              else (let n = atoi (drop 4 l) in
                    if 3 \<le> n \<and> n \<le> int MAX_N then
                      (case init_board G (nat n) of
                         Inl e \<Rightarrow> Inl e
                       | Inr G' \<Rightarrow> get_line G' allowN infp')
                    else Inl Format_Error))
           else (let t = trim l in
                 if t = [] then get_line G allowN infp' else Inr (G, t, infp'))))"
  by pat_completeness auto
termination
proof -
  have t: "length (snd (fgets_take (Suc n) (c # cs))) < length (c # cs)" for n c cs
  proof -
    have "length (snd (fgets_take k xs)) \<le> length xs" for k xs
      by (induction k xs rule: fgets_take.induct) (auto split: prod.splits)
    from this [of n cs] show ?thesis by (auto split: prod.splits)
  qed
  have f: "length r < length infp" if "fgets LINESIZE infp = Some (b, r)" for infp b r
  proof (cases infp)
    case Nil
    with that show ?thesis by (simp add: fgets_def)
  next
    case (Cons c cs)
    have "LINESIZE - 1 = Suc 498" by (simp add: LINESIZE_def)
    with that t [of 498 c cs] show ?thesis
      by (auto simp: fgets_def Cons simp del: fgets_take.simps)
  qed
  show ?thesis
    by (relation "measure (\<lambda>(G, allowN, infp). length infp)") (auto dest: f)
qed

declare get_line.simps [simp del]

definition set_square :: "Game \<Rightarrow> nat \<times> nat \<Rightarrow> Square \<Rightarrow> Game" where
  "set_square G c p = G \<lparr> board := (board G) (c := p) \<rparr>"

text \<open>
  The loop over the columns of row \<open>i\<close> in \<open>load_file\<close>; \<open>cs\<close> is the C string from the
  pointer \<open>c\<close> on.  At its end \<open>*c\<close> is the NUL, which \<open>map_alphabet_to_int\<close> maps to
  \<open>-1\<close>.
\<close>

fun load_row :: "Game \<Rightarrow> nat \<Rightarrow> nat list \<Rightarrow> string \<Rightarrow> error + Game" where
  "load_row G i [] cs = Inr G"
| "load_row G i (j # js) cs =
     (case dropWhile isspace cs of
        [] \<Rightarrow> Inl Format_Error
      | ch # rest \<Rightarrow>
          (let p = board G (i, j) in
           if ch = CHR ''-'' then
             load_row (set_square G (i, j)
                         (p \<lparr> cur_value := 0, frozen := False,
                              candidate := clear_candidates G (candidate p),
                              topmask := - 1 \<rparr>)) i js rest
           else
             (let d = map_alphabet_to_int ch in
              if d = - 1 \<or> d > int (N2 G) then Inl Format_Error
              else load_row
                     ((set_square G (i, j)
                         (p \<lparr> cur_value := nat d, frozen := True,
                              candidate := clear_candidates G (candidate p),
                              topmask := - 1 \<rparr>))
                      \<lparr> stats := (stats G) \<lparr> num_occupied_squares_originally :=
                                    num_occupied_squares_originally (stats G) + 1 \<rparr> \<rparr>)
                     i js rest)))"

text \<open>
  The loop over the rows.  \<open>allowN\<close> is true for the first call of \<open>get_line\<close> only, so
  \<open>N2\<close> cannot change after the first row: the remaining rows are \<open>2 .. N2\<close> for the
  \<open>N2\<close> in force once the first line has been read.
\<close>

fun load_rows :: "Game \<Rightarrow> nat list \<Rightarrow> string \<Rightarrow> error + Game" where
  "load_rows G [] infp = Inr G"
| "load_rows G (i # is) infp =
     (case get_line G False infp of
        Inl e \<Rightarrow> Inl e
      | Inr (G1, l, infp') \<Rightarrow>
          (case load_row G1 i [1..<Suc (N2 G1)] l of
             Inl e \<Rightarrow> Inl e
           | Inr G2 \<Rightarrow> load_rows G2 is infp'))"

text \<open>
  \<open>load_file\<close> is given the characters of the file that \<open>fopen\<close> has opened; a file that
  cannot be opened is not modelled.
\<close>

definition load_file :: "Game \<Rightarrow> string \<Rightarrow> bool \<Rightarrow> error + Game" where
  "load_file G infp allowN =
     (if N2 G < 1 then Inr G
      else case get_line G allowN infp of
             Inl e \<Rightarrow> Inl e
           | Inr (G1, l, infp') \<Rightarrow>
               (case load_row G1 1 [1..<Suc (N2 G1)] l of
                  Inl e \<Rightarrow> Inl e
                | Inr G2 \<Rightarrow> load_rows G2 [2..<Suc (N2 G2)] infp'))"

definition save_board :: "Game \<Rightarrow> Game" where
  "save_board G = G \<lparr> saved_board := board G \<rparr>"

section \<open>The verifier\<close>

text \<open>
  One unit (a row, a column or a subsquare) is checked by counting the values of its
  squares in \<open>used\<close> and then scanning \<open>used[1 .. N2]\<close>.  The \<open>assert\<close> on the value of a
  square is part of the counting loop.
\<close>

fun count_used :: "Game \<Rightarrow> (nat \<times> nat) list \<Rightarrow> (nat \<Rightarrow> nat) \<Rightarrow> error + (nat \<Rightarrow> nat)" where
  "count_used G [] used = Inr used"
| "count_used G (c # cs) used =
     (let n = cur_value (board G c) in
      if n \<le> N2 G then count_used G cs (used (n := used n + 1))
      else Inl Assertion_Failed)"

fun check_used :: "bool \<Rightarrow> (nat \<Rightarrow> nat) \<Rightarrow> nat list \<Rightarrow> bool" where
  "check_used full_solution used [] = True"
| "check_used full_solution used (k # ks) =
     (if used k > 1 then False
      else if full_solution \<and> used k \<noteq> 1 then False
      else check_used full_solution used ks)"

definition verify_unit :: "Game \<Rightarrow> bool \<Rightarrow> (nat \<times> nat) list \<Rightarrow> error + bool" where
  "verify_unit G full_solution cells =
     (case count_used G cells (\<lambda>k. 0) of
        Inl e \<Rightarrow> Inl e
      | Inr used \<Rightarrow> Inr (check_used full_solution used [1..<Suc (N2 G)]))"

fun verify_units :: "Game \<Rightarrow> bool \<Rightarrow> (nat \<times> nat) list list \<Rightarrow> error + bool" where
  "verify_units G full_solution [] = Inr True"
| "verify_units G full_solution (u # us) =
     (case verify_unit G full_solution u of
        Inl e \<Rightarrow> Inl e
      | Inr ok \<Rightarrow> if ok then verify_units G full_solution us else Inr False)"

definition row_squares :: "Game \<Rightarrow> nat \<Rightarrow> (nat \<times> nat) list" where
  "row_squares G i = map (\<lambda>j. (i, j)) [1..<Suc (N2 G)]"

definition column_squares :: "Game \<Rightarrow> nat \<Rightarrow> (nat \<times> nat) list" where
  "column_squares G i = map (\<lambda>j. (j, i)) [1..<Suc (N2 G)]"

definition subsquare_squares :: "Game \<Rightarrow> nat \<times> nat \<Rightarrow> (nat \<times> nat) list" where
  "subsquare_squares G org = map (\<lambda>(ii, jj). (fst org + ii, snd org + jj)) (List.product [0..<N G] [0..<N G])"

text \<open>
  The origins \<open>1, 1 + N, 1 + 2 N, ...\<close> visited by \<open>for (i = 1; i <= N2; i += N)\<close>.  With
  \<open>N = 0\<close> the C loop would not advance; the model stops at once, every game the program
  builds has \<open>N \<ge> 3\<close>.
\<close>

function origins_from :: "Game \<Rightarrow> nat \<Rightarrow> nat list" where
  "origins_from G i = (if N G = 0 \<or> N2 G < i then [] else i # origins_from G (i + N G))"
  by pat_completeness auto
termination
  by (relation "measure (\<lambda>(G, i). Suc (N2 G) - i)") auto

definition subsquare_origins :: "Game \<Rightarrow> (nat \<times> nat) list" where
  "subsquare_origins G = List.product (origins_from G 1) (origins_from G 1)"

definition verify_solution :: "Game \<Rightarrow> bool \<Rightarrow> error + bool" where
  "verify_solution G full_solution =
     (case verify_units G full_solution (map (row_squares G) [1..<Suc (N2 G)]) of
        Inl e \<Rightarrow> Inl e
      | Inr rows_ok \<Rightarrow>
          if \<not> rows_ok then Inr False
          else (case verify_units G full_solution (map (column_squares G) [1..<Suc (N2 G)]) of
                  Inl e \<Rightarrow> Inl e
                | Inr columns_ok \<Rightarrow>
                    if \<not> columns_ok then Inr False
                    else verify_units G full_solution
                           (map (subsquare_squares G) (subsquare_origins G))))"

definition verify_solution_to_our_problem :: "Game \<Rightarrow> bool" where
  "verify_solution_to_our_problem G =
     list_all (\<lambda>c. \<not> (cur_value (saved_board G c) \<noteq> 0 \<and>
                      cur_value (saved_board G c) \<noteq> cur_value (board G c)))
       (List.product [0..<Suc (N2 G)] [0..<Suc (N2 G)])"

section \<open>The candidate engine\<close>

definition all_squares :: "Game \<Rightarrow> (nat \<times> nat) list" where
  "all_squares G = List.product [1..<Suc (N2 G)] [1..<Suc (N2 G)]"

text \<open>
  \<open>count_seen\<close> is the loop of \<open>find_candidate\<close> that counts the values of the neighbors,
  \<open>candidate_mask\<close> the loop that collects the values not seen.
\<close>

definition count_seen :: "Game \<Rightarrow> (nat \<times> nat) list \<Rightarrow> nat \<Rightarrow> nat" where
  "count_seen G ns =
     fold (\<lambda>d seen. seen (cur_value (board G d) := seen (cur_value (board G d)) + 1)) ns (\<lambda>k. 0)"

definition candidate_mask :: "Game \<Rightarrow> (nat \<Rightarrow> nat) \<Rightarrow> Bitmask" where
  "candidate_mask G seen =
     fold (\<lambda>k b. if seen k = 0 then b OR bit_of k else b) [1..<Suc (N2 G)] 0"

definition find_candidate :: "Game \<Rightarrow> nat \<Rightarrow> nat \<Rightarrow> bool \<times> Game" where
  "find_candidate G row col =
     (let p = board G (row, col) in
      if frozen p then (True, G)
      else
        (let seen = count_seen G (neighbors p);
             b = candidate_mask G seen;
             n = length (filter (\<lambda>k. seen k = 0) [1..<Suc (N2 G)])
         in (b \<noteq> 0,
             set_square G (row, col)
               (p \<lparr> num_candidates := n, topmask := 0,
                    candidate := (candidate p) (0 := b) \<rparr>))))"

definition find_candidates :: "Game \<Rightarrow> bool \<times> Game" where
  "find_candidates G =
     fold (\<lambda>c (retval, G').
             case find_candidate G' (fst c) (snd c) of
               (ok, G'') \<Rightarrow> (if ok then retval else False, G''))
       (all_squares G) (True, G)"

definition freeze_one :: "Game \<Rightarrow> nat \<Rightarrow> nat \<Rightarrow> nat \<Rightarrow> Game" where
  "freeze_one G row col piece =
     (let p = board G (row, col) in
      set_square G (row, col)
        (p \<lparr> cur_value := piece, frozen := True,
             candidate := clear_candidates G (candidate p),
             topmask := - 1, num_candidates := 0 \<rparr>))"

definition get_first_candidate :: "Game \<Rightarrow> Bitmask \<Rightarrow> nat" where
  "get_first_candidate G b =
     (case List.find (\<lambda>i. b AND bit_of i \<noteq> 0) [1..<Suc (N2 G)] of
        None \<Rightarrow> 0
      | Some i \<Rightarrow> i)"

section \<open>Preprocessing\<close>

definition check_for_only_one_candidate :: "Game \<Rightarrow> bool \<times> Game" where
  "check_for_only_one_candidate G =
     fold (\<lambda>c (found_one, G').
             let p = board G' c in
             if \<not> frozen p \<and> num_candidates p = 1 then
               (let t = get_first_candidate G' (candidate p 0);
                    G'' = freeze_one G' (fst c) (snd c) t
                in (True,
                    G'' \<lparr> stats := (stats G'') \<lparr> num_frozen_as_only_candidate :=
                             num_frozen_as_only_candidate (stats G'') + 1 \<rparr> \<rparr>))
             else (found_one, G'))
       (all_squares G) (False, G)"

text \<open>
  The three optimizations share their shape: for each unit, count in \<open>seen[k]\<close> the
  unfrozen squares of the unit that have \<open>k\<close> in \<open>candidate[0]\<close> and remember the last
  such square (\<open>index[k]\<close> in a row or column, \<open>row_index[k]\<close> and \<open>col_index[k]\<close> in a
  subsquare; the model keeps the square itself); then freeze the remembered square for
  the first \<open>k\<close> with \<open>seen[k] = 1\<close> and return true.
\<close>

definition scan_unit ::
  "Game \<Rightarrow> (nat \<times> nat) list \<Rightarrow> (nat \<Rightarrow> nat) \<times> (nat \<Rightarrow> nat \<times> nat)" where
  "scan_unit G cells =
     fold (\<lambda>c (seen, index).
             let p = board G c in
             if frozen p then (seen, index)
             else fold (\<lambda>k (seen, index).
                          if candidate p 0 AND bit_of k \<noteq> 0
                          then (seen (k := seen k + 1), index (k := c))
                          else (seen, index))
                    [1..<Suc (N2 G)] (seen, index))
       cells (\<lambda>k. 0, \<lambda>k. (0, 0))"

fun try_units ::
  "Game \<Rightarrow> (Game_Stats \<Rightarrow> Game_Stats) \<Rightarrow> (nat \<times> nat) list list \<Rightarrow> bool \<times> Game" where
  "try_units G count [] = (False, G)"
| "try_units G count (u # us) =
     (case scan_unit G u of
        (seen, index) \<Rightarrow>
          (case List.find (\<lambda>k. seen k = 1) [1..<Suc (N2 G)] of
             Some k \<Rightarrow>
               (let G' = freeze_one G (fst (index k)) (snd (index k)) k
                in (True, G' \<lparr> stats := count (stats G') \<rparr>))
           | None \<Rightarrow> try_units G count us))"

definition try_row_optimization :: "Game \<Rightarrow> bool \<times> Game" where
  "try_row_optimization G =
     try_units G
       (\<lambda>s. s \<lparr> num_frozen_by_row_optimization := num_frozen_by_row_optimization s + 1 \<rparr>)
       (map (row_squares G) [1..<Suc (N2 G)])"

definition try_column_optimization :: "Game \<Rightarrow> bool \<times> Game" where
  "try_column_optimization G =
     try_units G
       (\<lambda>s. s \<lparr> num_frozen_by_column_optimization :=
                  num_frozen_by_column_optimization s + 1 \<rparr>)
       (map (column_squares G) [1..<Suc (N2 G)])"

definition try_subsquare_optimization :: "Game \<Rightarrow> bool \<times> Game" where
  "try_subsquare_optimization G =
     try_units G
       (\<lambda>s. s \<lparr> num_frozen_by_subsquare_optimization :=
                  num_frozen_by_subsquare_optimization s + 1 \<rparr>)
       (map (subsquare_squares G) (subsquare_origins G))"

definition compute_candidate_stats :: "Game \<Rightarrow> bool \<Rightarrow> Game" where
  "compute_candidate_stats G before_opt =
     (let sum_cand = sum_list (map (\<lambda>c. num_candidates (board G c))
                                 (filter (\<lambda>c. \<not> frozen (board G c)) (all_squares G)))
      in if before_opt
         then G \<lparr> stats := (stats G) \<lparr> sum_num_candidates_originally := sum_cand \<rparr> \<rparr>
         else G \<lparr> stats := (stats G) \<lparr> sum_num_candidates_after_optimization := sum_cand \<rparr> \<rparr>)"

text \<open>
  The \<open>while (true)\<close> loop of \<open>preprocess_board\<close>; its result is \<open>no_candidates\<close> and the
  game at the \<open>break\<close>.  A loop that does not end has no result (\<open>None\<close>).
\<close>

partial_function (option) preprocess_loop :: "bool \<Rightarrow> Game \<Rightarrow> (bool \<times> Game) option" where
  "preprocess_loop first_time G =
     (case find_candidates G of
        (ok, G1) \<Rightarrow>
          (let no_candidates = \<not> ok;
               G2 = (if first_time then compute_candidate_stats G1 True else G1)
           in if no_candidates then Some (no_candidates, G2)
              else (case check_for_only_one_candidate G2 of
                      (c1, G3) \<Rightarrow>
                        if c1 then preprocess_loop False G3
                        else (case try_row_optimization G3 of
                                (c2, G4) \<Rightarrow>
                                  if c2 then preprocess_loop False G4
                                  else (case try_column_optimization G4 of
                                          (c3, G5) \<Rightarrow>
                                            if c3 then preprocess_loop False G5
                                            else (case try_subsquare_optimization G5 of
                                                    (c4, G6) \<Rightarrow>
                                                      if c4 then preprocess_loop False G6
                                                      else Some (no_candidates, G6)))))))"

declare preprocess_loop.simps [code]

definition preprocess_board :: "Game \<Rightarrow> (bool \<times> Game) option" where
  "preprocess_board G =
     (case preprocess_loop True G of
        None \<Rightarrow> None
      | Some (no_candidates, G') \<Rightarrow>
          Some (\<not> no_candidates, compute_candidate_stats G' False))"

section \<open>Backtracking search\<close>

text \<open>
  One neighbor in the loop of \<open>update_neighbors\<close>.  Releasing decrements \<open>topmask\<close> and
  asserts that it stays non-negative; restricting asserts a non-negative \<open>topmask\<close>,
  copies the top mask without the bit of the piece and stores it one slot higher.  The
  array \<open>candidate\<close> has \<open>MAX_NUM_NEIGHBORS\<close> slots; a store beyond it is the error
  \<open>Out_Of_Bounds\<close>.
\<close>

definition update_neighbor :: "Game \<Rightarrow> nat \<Rightarrow> bool \<Rightarrow> nat \<times> nat \<Rightarrow> error + Game" where
  "update_neighbor G piece_number make_avail d =
     (let q = board G d in
      if frozen q then Inr G
      else if make_avail then
        (if topmask q - 1 \<ge> 0
         then Inr (set_square G d (q \<lparr> topmask := topmask q - 1 \<rparr>))
         else Inl Assertion_Failed)
      else
        (if \<not> topmask q \<ge> 0 then Inl Assertion_Failed
         else if \<not> topmask q + 1 < int MAX_NUM_NEIGHBORS then Inl Out_Of_Bounds
         else Inr (set_square G d
                (q \<lparr> topmask := topmask q + 1,
                     candidate := (candidate q)
                       (nat (topmask q + 1) :=
                          candidate q (nat (topmask q)) AND NOT (bit_of piece_number)) \<rparr>))))"

fun update_neighbors_loop ::
  "Game \<Rightarrow> nat \<Rightarrow> bool \<Rightarrow> (nat \<times> nat) list \<Rightarrow> error + Game" where
  "update_neighbors_loop G piece_number make_avail [] = Inr G"
| "update_neighbors_loop G piece_number make_avail (d # ds) =
     (case update_neighbor G piece_number make_avail d of
        Inl e \<Rightarrow> Inl e
      | Inr G' \<Rightarrow> update_neighbors_loop G' piece_number make_avail ds)"

definition update_neighbors :: "Game \<Rightarrow> nat \<Rightarrow> nat \<Rightarrow> nat \<Rightarrow> bool \<Rightarrow> error + Game" where
  "update_neighbors G row col piece_number make_avail =
     (let p = board G (row, col) in
      if frozen p then Inl Assertion_Failed
      else update_neighbors_loop G piece_number make_avail (neighbors p))"

text \<open>
  The state of \<open>find_solution\<close>: the game, the loop variables \<open>i\<close> and \<open>j\<close>, the stack of
  the squares filled so far (\<open>row_stack\<close> and \<open>col_stack\<close> up to \<open>top\<close>, the top first) and
  \<open>piece_to_place\<close>.
\<close>

record Search =
  sgame :: Game
  srow :: nat
  scol :: nat
  sstack :: "(nat \<times> nat) list"
  piece_to_place :: nat

text \<open>
  One pass through the body of the inner loop, with the loop control around it: at the
  end of a row the next row starts; a frozen square is skipped; otherwise the first
  candidate above \<open>piece_to_place\<close> is placed and stacked, or, when there is none, the
  last placement is undone and the scan resumes at its square.
\<close>

definition find_solution_step :: "Search \<Rightarrow> error + Search" where
  "find_solution_step s =
     (let G = sgame s; i = srow s; j = scol s in
      if N2 G < j then Inr (s \<lparr> srow := i + 1, scol := 1 \<rparr>)
      else
        (let p = board G (i, j) in
         if frozen p then Inr (s \<lparr> scol := j + 1 \<rparr>)
         else if piece_to_place s + 1 \<le> N2 G \<and>
                 (topmask p < 0 \<or> int MAX_NUM_NEIGHBORS \<le> topmask p)
         then Inl Out_Of_Bounds
         else
           (case List.find (\<lambda>k. candidate p (nat (topmask p)) AND bit_of k \<noteq> 0)
                   [piece_to_place s + 1..<Suc (N2 G)] of
              Some k \<Rightarrow>
                (case update_neighbors (set_square G (i, j) (p \<lparr> cur_value := k \<rparr>))
                        i j k False of
                   Inl e \<Rightarrow> Inl e
                 | Inr G' \<Rightarrow>
                     if \<not> length ((i, j) # sstack s) \<le> num_squares G' then Inl Assertion_Failed
                     else Inr (s \<lparr> sgame := G', scol := j + 1,
                                   sstack := (i, j) # sstack s, piece_to_place := 0 \<rparr>))
            | None \<Rightarrow>
                (case sstack s of
                   [] \<Rightarrow> Inl Assertion_Failed
                 | (i', j') # st \<Rightarrow>
                     (let G1 = G \<lparr> stats := (stats G) \<lparr> num_unstackings :=
                                      num_unstackings (stats G) + 1 \<rparr> \<rparr>;
                          v = cur_value (board G1 (i', j'))
                      in case update_neighbors G1 i' j' v True of
                           Inl e \<Rightarrow> Inl e
                         | Inr G' \<Rightarrow>
                             Inr (s \<lparr> sgame := set_square G' (i', j')
                                                 ((board G' (i', j')) \<lparr> cur_value := 0 \<rparr>),
                                      srow := i', scol := j', sstack := st,
                                      piece_to_place := v \<rparr>))))))"

partial_function (option) find_solution_loop :: "Search \<Rightarrow> (error + Game) option" where
  "find_solution_loop s =
     (if N2 (sgame s) < srow s then Some (Inr (sgame s))
      else case find_solution_step s of
             Inl e \<Rightarrow> Some (Inl e)
           | Inr s' \<Rightarrow> find_solution_loop s')"

declare find_solution_loop.simps [code]

definition find_solution :: "Game \<Rightarrow> (error + Game) option" where
  "find_solution G =
     find_solution_loop \<lparr> sgame = G, srow = 1, scol = 1, sstack = [], piece_to_place = 0 \<rparr>"

section \<open>The main program\<close>

datatype Outcome =
  Invalid_Setup | No_Solution_Exists | Not_A_Solution_To_The_Original_Problem
  | Invalid_Solution | Solved

text \<open>
  \<open>solve\<close> is \<open>main\<close> from \<open>save_board\<close> on; the outcome names the message printed (none
  for \<open>Solved\<close>).  Printing the board and the statistics is not modelled.
\<close>

definition solve :: "Game \<Rightarrow> (error + Outcome \<times> Game) option" where
  "solve G0 =
     (let G1 = save_board G0 in
      case verify_solution G1 False of
        Inl e \<Rightarrow> Some (Inl e)
      | Inr ok \<Rightarrow>
          if \<not> ok then Some (Inr (Invalid_Setup, G1))
          else (case preprocess_board G1 of
                  None \<Rightarrow> None
                | Some (solvable, G2) \<Rightarrow>
                    if \<not> solvable then Some (Inr (No_Solution_Exists, G2))
                    else (case find_solution G2 of
                            None \<Rightarrow> None
                          | Some (Inl e) \<Rightarrow> Some (Inl e)
                          | Some (Inr G3) \<Rightarrow>
                              if \<not> verify_solution_to_our_problem G3
                              then Some (Inr (Not_A_Solution_To_The_Original_Problem, G3))
                              else (case verify_solution G3 True of
                                      Inl e \<Rightarrow> Some (Inl e)
                                    | Inr full_ok \<Rightarrow>
                                        if \<not> full_ok then Some (Inr (Invalid_Solution, G3))
                                        else Some (Inr (Solved, G3))))))"

definition main :: "string \<Rightarrow> (error + Outcome \<times> Game) option" where
  "main infp =
     (case init_board game 3 of
        Inl e \<Rightarrow> Some (Inl e)
      | Inr G \<Rightarrow>
          (case load_file G infp True of
             Inl e \<Rightarrow> Some (Inl e)
           | Inr G0 \<Rightarrow> solve G0))"

section \<open>Predicates used in the statements\<close>

text \<open>
  A square of the board proper has both coordinates in \<open>1 .. N2\<close>.  Two squares are
  neighbors when they differ and share the row, the column or the subsquare, the
  subsquare being identified by its upper left corner as \<open>find_sub_square\<close> computes it.
\<close>

definition in_range :: "Game \<Rightarrow> nat \<times> nat \<Rightarrow> bool" where
  "in_range G c = (1 \<le> fst c \<and> fst c \<le> N2 G \<and> 1 \<le> snd c \<and> snd c \<le> N2 G)"

definition is_neighbor :: "Game \<Rightarrow> nat \<times> nat \<Rightarrow> nat \<times> nat \<Rightarrow> bool" where
  "is_neighbor G c d =
     (in_range G d \<and> d \<noteq> c \<and>
      (fst d = fst c \<or> snd d = snd c \<or>
       find_sub_square G (fst d) (snd d) = find_sub_square G (fst c) (snd c)))"

text \<open>
  A text file is written as the list of its lines, each followed by the newline
  (\<open>unlines\<close>).  A line \<open>fits\<close> when \<open>fgets\<close> stores it whole, with its newline, in
  \<open>linebuff\<close>.  What the loader sees of a line is the C string \<open>c_str l\<close>.  Its tokens are
  the characters other than white space.  The data lines are the lines that \<open>get_line\<close>
  returns: those that do not start with \<open>//\<close> and are not empty once the trailing white
  space is removed.  A size directive is a line that starts with \<open>//N=\<close>; its value is
  what \<open>atoi\<close> reads after these four characters, and the sizes that \<open>get_line\<close> accepts
  are \<open>3 .. MAX_N\<close>.
\<close>

definition unlines :: "string list \<Rightarrow> string" where
  "unlines ls = concat (map (\<lambda>l. l @ [CHR 0x0A]) ls)"

definition fits :: "string \<Rightarrow> bool" where
  "fits l = (CHR 0x0A \<notin> set l \<and> length l + 1 < LINESIZE)"

definition tokens :: "string \<Rightarrow> string" where
  "tokens l = filter (\<lambda>c. \<not> isspace c) l"

definition is_data_line :: "string \<Rightarrow> bool" where
  "is_data_line l = (take 2 (c_str l) \<noteq> ''//'' \<and> trim (c_str l) \<noteq> [])"

definition data_lines :: "string list \<Rightarrow> string list" where
  "data_lines ls = filter is_data_line ls"

definition is_directive :: "string \<Rightarrow> bool" where
  "is_directive l = (take 4 (c_str l) = ''//N='')"

definition directive_value :: "string \<Rightarrow> int" where
  "directive_value l = atoi (drop 4 (c_str l))"

definition valid_size :: "int \<Rightarrow> bool" where
  "valid_size n = (3 \<le> n \<and> n \<le> int MAX_N)"

text \<open>
  \<open>row_valid k m cs\<close> holds when the text \<open>cs\<close> starts with \<open>k\<close> tokens that are \<open>-\<close> or a
  character of the alphabet of size \<open>m\<close>: the checks of \<open>load_row\<close> without its stores.
  \<open>rows_valid k m ls\<close> holds when the lines \<open>ls\<close> hold \<open>k\<close> such data lines, with no
  \<open>//N=\<close> line among the lines skipped on the way.
\<close>

fun row_valid :: "nat \<Rightarrow> nat \<Rightarrow> string \<Rightarrow> bool" where
  "row_valid 0 m cs = True"
| "row_valid (Suc k) m cs =
     (case dropWhile isspace cs of
        [] \<Rightarrow> False
      | ch # rest \<Rightarrow>
          (ch = CHR ''-'' \<or>
           (map_alphabet_to_int ch \<noteq> - 1 \<and> map_alphabet_to_int ch \<le> int m))
          \<and> row_valid k m rest)"

fun rows_valid :: "nat \<Rightarrow> nat \<Rightarrow> string list \<Rightarrow> bool" where
  "rows_valid 0 m ls = True"
| "rows_valid (Suc k) m [] = False"
| "rows_valid (Suc k) m (l # ls) =
     (if is_data_line l
      then row_valid m m (trim (c_str l)) \<and> rows_valid k m ls
      else \<not> is_directive l \<and> rows_valid (Suc k) m ls)"

text \<open>The lines of a file with a complete grid, used to instantiate the statements.\<close>

definition solved_grid :: "string list" where
  "solved_grid =
    [''// a complete grid'',
     ''5 3 4   6 7 8   9 1 2'',
     ''6 7 2   1 9 5   3 4 8'',
     ''1 9 8   3 4 2   5 6 7'',
     '' '',
     ''8 5 9   7 6 1   4 2 3'',
     ''4 2 6   8 5 3   7 9 1'',
     ''7 1 3   9 2 4   8 5 6'',
     '' '',
     ''9 6 1   5 3 7   2 8 4'',
     ''2 8 7   4 1 9   6 3 5'',
     ''3 4 5   2 8 6   1 7 9'']"

text \<open>
  The units that \<open>verify_solution\<close> visits are the rows, the columns and the subsquares,
  in this order.  \<open>unit_count G cells k\<close> is the number of squares of \<open>cells\<close> that hold
  \<open>k\<close>, which is what \<open>used[k]\<close> holds after the counting loop; \<open>unit_ok\<close> is the test of
  the loop that follows.  In a \<open>blank_game\<close> no square has a value and the statistics are
  zero; in a \<open>loaded_game\<close> the values are at most \<open>N2\<close> and only the count of the occupied
  squares may differ from zero.  \<open>tokval\<close> is the value that \<open>load_file\<close> stores for a
  token.  \<open>dup_grid\<close> holds the lines of a puzzle with the value 5 twice in its first row.
\<close>

definition unit_count :: "Game \<Rightarrow> (nat \<times> nat) list \<Rightarrow> nat \<Rightarrow> nat" where
  "unit_count G cells k = length (filter (\<lambda>c. cur_value (board G c) = k) cells)"

definition all_units :: "Game \<Rightarrow> (nat \<times> nat) list list" where
  "all_units G =
     map (row_squares G) [1..<Suc (N2 G)] @ map (column_squares G) [1..<Suc (N2 G)] @
     map (subsquare_squares G) (subsquare_origins G)"

definition unit_ok :: "Game \<Rightarrow> bool \<Rightarrow> (nat \<times> nat) list \<Rightarrow> bool" where
  "unit_ok G full_solution cells =
     (\<forall>k \<in> set [1..<Suc (N2 G)].
        unit_count G cells k \<le> 1 \<and> (full_solution \<longrightarrow> unit_count G cells k = 1))"

definition values_in_range :: "Game \<Rightarrow> bool" where
  "values_in_range G = (\<forall>c. cur_value (board G c) \<le> N2 G)"

definition blank_game :: "Game \<Rightarrow> bool" where
  "blank_game G = ((\<forall>c. cur_value (board G c) = 0) \<and> stats G = zero_stats)"

definition loaded_game :: "Game \<Rightarrow> bool" where
  "loaded_game G =
     (values_in_range G \<and>
      (stats G) \<lparr> num_occupied_squares_originally := 0 \<rparr> = zero_stats)"

definition tokval :: "char \<Rightarrow> nat" where
  "tokval ch = (if ch = CHR ''-'' then 0 else nat (map_alphabet_to_int ch))"

definition dup_grid :: "string list" where
  "dup_grid =
    [''5 5 -   - - -   - - -'',
     ''- - -   - - -   - - -'',
     ''- - -   - - -   - - -'',
     ''- - -   - - -   - - -'',
     ''- - -   - - -   - - -'',
     ''- - -   - - -   - - -'',
     ''- - -   - - -   - - -'',
     ''- - -   - - -   - - -'',
     ''- - -   - - -   - - -'']"

text \<open>
  A line that \<open>linebuff\<close> cannot hold: a row of nine values, blanks up to column 499, and
  a tenth token in column 500.
\<close>

definition long_line :: string where
  "long_line = ''5 3 4   6 7 8   9 1 2'' @ replicate 478 CHR '' '' @ ''1''"

text \<open>
  \<open>frozen_kept G G'\<close>: from \<open>G\<close> to \<open>G'\<close> the size of the game and the saved board are the
  same and every square that is frozen in \<open>G\<close> is untouched.  \<open>same_layout G G'\<close>: only
  candidate stacks differ.  \<open>index_ok\<close> is the invariant of the scan of a unit: a
  remembered square is not frozen.
\<close>

definition frozen_kept :: "Game \<Rightarrow> Game \<Rightarrow> bool" where
  "frozen_kept G G' =
     (N G' = N G \<and> N2 G' = N2 G \<and> saved_board G' = saved_board G \<and>
      (\<forall>c. frozen (board G c) \<longrightarrow> board G' c = board G c))"

definition same_layout :: "Game \<Rightarrow> Game \<Rightarrow> bool" where
  "same_layout G G' =
     (N G' = N G \<and> N2 G' = N2 G \<and> num_squares G' = num_squares G \<and>
      num_neighbors G' = num_neighbors G \<and> saved_board G' = saved_board G \<and>
      stats G' = stats G \<and>
      (\<forall>c. frozen (board G' c) = frozen (board G c) \<and>
           cur_value (board G' c) = cur_value (board G c) \<and>
           neighbors (board G' c) = neighbors (board G c)))"

definition index_ok :: "Game \<Rightarrow> (nat \<Rightarrow> nat) \<times> (nat \<Rightarrow> nat \<times> nat) \<Rightarrow> bool" where
  "index_ok G si = (\<forall>k. 0 < fst si k \<longrightarrow> \<not> frozen (board G (snd si k)))"

section \<open>The neighbor lists built by init_board\<close>

lemma sub_origin_bounds:
  fixes n a :: nat
  assumes "1 \<le> n" "1 \<le> a"
  shows "n * ((a - 1) div n) + 1 \<le> a \<and> a < n * ((a - 1) div n) + 1 + n"
proof -
  have "n * ((a - 1) div n) \<le> a - 1" by simp
  moreover have "a - 1 < n * ((a - 1) div n) + n"
    using assms(1) by (metis add.commute dividend_less_times_div mult.commute not_one_le_zero not_gr_zero)
  ultimately show ?thesis using assms by linarith
qed

lemma sub_origin_eq_iff:
  fixes n a q :: nat
  assumes "1 \<le> n" "1 \<le> a"
  shows "(n * ((a - 1) div n) + 1 = n * q + 1) = (n * q + 1 \<le> a \<and> a < n * q + 1 + n)"
proof
  assume "n * ((a - 1) div n) + 1 = n * q + 1"
  with sub_origin_bounds [OF assms] show "n * q + 1 \<le> a \<and> a < n * q + 1 + n" by simp
next
  assume b: "n * q + 1 \<le> a \<and> a < n * q + 1 + n"
  then have "(a - 1) div n = q"
    using assms by (intro div_nat_eqI) (auto simp: algebra_simps)
  then show "n * ((a - 1) div n) + 1 = n * q + 1" by simp
qed

lemma sub_origin_upper:
  fixes n a :: nat
  assumes "1 \<le> n" "1 \<le> a" "a \<le> n * n"
  shows "n * ((a - 1) div n) + n \<le> n * n"
proof -
  have "(a - 1) div n < n" using assms by (simp add: less_mult_imp_div_less)
  then have "(a - 1) div n + 1 \<le> n" by simp
  then have "n * ((a - 1) div n + 1) \<le> n * n" by (rule mult_le_mono2)
  then show ?thesis by (simp add: algebra_simps)
qed


lemma origin_interval:
  fixes n a i :: nat
  assumes "1 \<le> n" "1 \<le> i" "i \<le> n * n"
  shows "(n * ((i - 1) div n) + 1 \<le> a \<and> a < n * ((i - 1) div n) + 1 + n) =
         (1 \<le> a \<and> a \<le> n * n \<and> n * ((a - 1) div n) + 1 = n * ((i - 1) div n) + 1)"
proof (cases "1 \<le> a")
  case True
  from sub_origin_upper [OF assms]
  have "a < n * ((i - 1) div n) + 1 + n \<Longrightarrow> a \<le> n * n" by simp
  with sub_origin_eq_iff [OF assms(1) True, of "(i - 1) div n"] True
  show ?thesis by blast
next
  case False
  then show ?thesis by simp
qed

lemma set_subsquare_neighbors:
  assumes "1 \<le> N G" "N2 G = N G * N G" "in_range G (i, j)"
  shows "set (subsquare_neighbors G i j) =
    {d. in_range G d \<and> fst d \<noteq> i \<and> snd d \<noteq> j \<and>
        find_sub_square G (fst d) (snd d) = find_sub_square G i j}"
proof -
  let ?n = "N G"
  from assms have ij: "1 \<le> i" "i \<le> ?n * ?n" "1 \<le> j" "j \<le> ?n * ?n"
    by (auto simp: in_range_def)
  note oi = origin_interval [OF assms(1) ij(1,2)]
  note oj = origin_interval [OF assms(1) ij(3,4)]
  show ?thesis
  proof (rule set_eqI)
    fix d :: "nat \<times> nat"
    obtain a b where d: "d = (a, b)" by (cases d)
    have "(d \<in> set (subsquare_neighbors G i j)) =
        ((?n * ((i - 1) div ?n) + 1 \<le> a \<and> a < ?n * ((i - 1) div ?n) + 1 + ?n) \<and> a \<noteq> i \<and>
         (?n * ((j - 1) div ?n) + 1 \<le> b \<and> b < ?n * ((j - 1) div ?n) + 1 + ?n) \<and> b \<noteq> j)"
      unfolding d subsquare_neighbors_def find_sub_square_def prod.case set_product set_filter set_upt
      by (simp only: mem_Sigma_iff mem_Collect_eq atLeastLessThan_iff conj_ac)
    also have "\<dots> = (d \<in> {d. in_range G d \<and> fst d \<noteq> i \<and> snd d \<noteq> j \<and>
        find_sub_square G (fst d) (snd d) = find_sub_square G i j})"
      unfolding oi [of a] oj [of b]
      unfolding d in_range_def find_sub_square_def assms(2) fst_conv snd_conv mem_Collect_eq prod.inject
      by blast
    finally show "(d \<in> set (subsquare_neighbors G i j)) =
      (d \<in> {d. in_range G d \<and> fst d \<noteq> i \<and> snd d \<noteq> j \<and>
        find_sub_square G (fst d) (snd d) = find_sub_square G i j})" .
  qed
qed

lemma set_neighbor_list:
  assumes "1 \<le> N G" "N2 G = N G * N G" "in_range G (i, j)"
  shows "set (neighbor_list G i j) = {d. is_neighbor G (i, j) d}"
proof -
  from assms(3) have ij: "i \<noteq> 0" "j \<noteq> 0" "1 \<le> i" "i \<le> N2 G" "1 \<le> j" "j \<le> N2 G"
    by (auto simp: in_range_def)
  have c: "set (column_neighbors G i j) = {d. in_range G d \<and> snd d = j \<and> fst d \<noteq> i}"
    using ij by (auto simp: column_neighbors_def in_range_def)
  have r: "set (row_neighbors G i j) = {d. in_range G d \<and> fst d = i \<and> snd d \<noteq> j}"
    using ij by (auto simp: row_neighbors_def in_range_def)
  have n: "neighbor_list G i j =
      column_neighbors G i j @ row_neighbors G i j @ subsquare_neighbors G i j"
    using ij(1,2) by (simp add: neighbor_list_def)
  show ?thesis
  proof (rule set_eqI)
    fix d :: "nat \<times> nat"
    show "(d \<in> set (neighbor_list G i j)) = (d \<in> {d. is_neighbor G (i, j) d})"
      unfolding n set_append c r set_subsquare_neighbors [OF assms] is_neighbor_def
        Un_iff mem_Collect_eq fst_conv snd_conv
      by (cases d) auto
  qed
qed

lemma length_filter_neq_upt:
  assumes "a \<le> i" "i < b"
  shows "length (filter (\<lambda>x. x \<noteq> i) [a..<b]) = b - a - 1"
proof -
  have "filter (\<lambda>x. x \<noteq> i) xs = removeAll i xs" for xs :: "nat list"
    by (induction xs) auto
  then have "filter (\<lambda>x. x \<noteq> i) [a..<b] = removeAll i [a..<b]" .
  also have "\<dots> = remove1 i [a..<b]"
    by (simp add: distinct_remove1_removeAll)
  finally show ?thesis using assms by (simp add: length_remove1)
qed

lemma length_neighbor_list:
  assumes "1 \<le> N G" "N2 G = N G * N G" "in_range G (i, j)"
  shows "length (neighbor_list G i j) = 3 * N2 G - 2 * N G - 1"
proof -
  let ?n = "N G"
  from assms(3) have ij: "i \<noteq> 0" "j \<noteq> 0" "1 \<le> i" "i \<le> N2 G" "1 \<le> j" "j \<le> N2 G"
    by (auto simp: in_range_def)
  have c: "length (column_neighbors G i j) = N2 G - 1"
    using ij by (simp add: column_neighbors_def length_filter_neq_upt del: upt_Suc)
  have r: "length (row_neighbors G i j) = N2 G - 1"
    using ij by (simp add: row_neighbors_def length_filter_neq_upt del: upt_Suc)
  have bi: "?n * ((i - 1) div ?n) + 1 \<le> i \<and> i < ?n * ((i - 1) div ?n) + 1 + ?n"
    and bj: "?n * ((j - 1) div ?n) + 1 \<le> j \<and> j < ?n * ((j - 1) div ?n) + 1 + ?n"
    using sub_origin_bounds [OF assms(1)] ij by auto
  have li: "length (filter (\<lambda>x. x \<noteq> i)
        [?n * ((i - 1) div ?n) + 1..<?n * ((i - 1) div ?n) + 1 + ?n]) = ?n - 1"
    using length_filter_neq_upt [of "?n * ((i - 1) div ?n) + 1" i "?n * ((i - 1) div ?n) + 1 + ?n"] bi
    by simp
  have lj: "length (filter (\<lambda>x. x \<noteq> j)
        [?n * ((j - 1) div ?n) + 1..<?n * ((j - 1) div ?n) + 1 + ?n]) = ?n - 1"
    using length_filter_neq_upt [of "?n * ((j - 1) div ?n) + 1" j "?n * ((j - 1) div ?n) + 1 + ?n"] bj
    by simp
  have s: "length (subsquare_neighbors G i j) = (?n - 1) * (?n - 1)"
    unfolding subsquare_neighbors_def find_sub_square_def prod.case length_product li lj ..
  obtain k where k: "?n = Suc k" using assms(1) by (cases ?n) auto
  show ?thesis
    unfolding neighbor_list_def using ij(1,2)
    by (simp add: c r s assms(2) k algebra_simps)
qed

lemma distinct_neighbor_list:
  "distinct (neighbor_list G i j)"
proof -
  have c: "distinct (column_neighbors G i j)"
    by (simp add: column_neighbors_def distinct_map inj_on_def)
  have r: "distinct (row_neighbors G i j)"
    by (simp add: row_neighbors_def distinct_map inj_on_def)
  have s: "distinct (subsquare_neighbors G i j)"
    by (simp add: subsquare_neighbors_def find_sub_square_def distinct_product)
  show ?thesis
    unfolding neighbor_list_def using c r s
    by (auto simp: column_neighbors_def row_neighbors_def subsquare_neighbors_def
        find_sub_square_def)
qed

lemma is_neighbor_sym:
  "in_range G c \<Longrightarrow> is_neighbor G c d \<Longrightarrow> is_neighbor G d c"
  by (auto simp: is_neighbor_def)


lemma neighbor_list_cong:
  "N G' = N G \<Longrightarrow> N2 G' = N2 G \<Longrightarrow> neighbor_list G' i j = neighbor_list G i j"
  by (simp add: neighbor_list_def column_neighbors_def row_neighbors_def
      subsquare_neighbors_def find_sub_square_def)

lemma init_board_result:
  assumes "1 \<le> n" "n \<le> MAX_N"
  shows "\<exists>G'. init_board G n = Inr G' \<and> N G' = n \<and> N2 G' = n * n \<and>
           num_neighbors G' = 3 * (n * n) - 2 * n - 1 \<and>
           (\<forall>c. in_range G' c \<longrightarrow> neighbors (board G' c) = neighbor_list G' (fst c) (snd c))"
proof -
  define G1 where "G1 = G \<lparr> N := n, N2 := n * n, num_squares := (n * n) * (n * n),
                  num_neighbors := 3 * (n * n) - 2 * n - 1 \<rparr>"
  define G2 where "G2 = G1 \<lparr> board := (\<lambda>(i, j).
                  if i \<le> N2 G1 \<and> j \<le> N2 G1 then
                    \<lparr> cur_value = 0, frozen = False,
                      neighbors = neighbor_list G1 i j,
                      candidate = clear_candidates G1 (candidate (board G (i, j))),
                      topmask = - 1, num_candidates = 0 \<rparr>
                  else board G (i, j)) \<rparr>"
  have g1: "1 \<le> N G1" "N2 G1 = N G1 * N G1" "in_range G1 (N2 G1, N2 G1)"
    using assms by (auto simp: G1_def in_range_def)
  have len: "length (neighbor_list G1 (N2 G1) (N2 G1)) = num_neighbors G1"
    using length_neighbor_list [OF g1] by (simp add: G1_def)
  have r: "init_board G n = Inr (G2 \<lparr> stats := zero_stats \<rparr>)"
    using assms len
    unfolding init_board_def G1_def [symmetric] G2_def [symmetric] Let_def
    by simp
  have f: "N (G2 \<lparr> stats := zero_stats \<rparr>) = n" "N2 (G2 \<lparr> stats := zero_stats \<rparr>) = n * n"
    "num_neighbors (G2 \<lparr> stats := zero_stats \<rparr>) = 3 * (n * n) - 2 * n - 1"
    by (simp_all add: G2_def G1_def)
  have c: "neighbor_list (G2 \<lparr> stats := zero_stats \<rparr>) i j = neighbor_list G1 i j" for i j
    by (rule neighbor_list_cong) (simp_all add: G2_def)
  have b: "neighbors (board (G2 \<lparr> stats := zero_stats \<rparr>) x)
        = neighbor_list (G2 \<lparr> stats := zero_stats \<rparr>) (fst x) (snd x)"
    if "in_range (G2 \<lparr> stats := zero_stats \<rparr>) x" for x
    using that unfolding c by (cases x) (simp add: G2_def in_range_def)
  from r f b show ?thesis by blast
qed

text \<open>
  Claim C7.  After \<open>init_board\<close> with a subsquare size \<open>n\<close> that the arrays of the game can
  hold, \<open>1 \<le> n \<le> MAX_N\<close>, the call returns and the neighbor list of every
  square \<open>(i, j)\<close> with \<open>1 \<le> i, j \<le> n\<^sup>2\<close> holds exactly the other squares of the board
  that share its row, its column or its subsquare, each of them once, which makes
  \<open>3 n\<^sup>2 - 2 n - 1\<close> entries; the subsquare of \<open>(row, col)\<close> has its origin at
  \<open>(n ((row - 1) div n) + 1, n ((col - 1) div n) + 1)\<close>; and the relation is symmetric: a
  square is in the list of each square of its own list.
\<close>

theorem init_board_neighbors:
  assumes "1 \<le> n" "n \<le> MAX_N"
  shows "\<exists>G'. init_board G n = Inr G' \<and> N G' = n \<and> N2 G' = n * n \<and>
    (\<forall>c. in_range G' c \<longrightarrow>
       set (neighbors (board G' c)) = {d. is_neighbor G' c d} \<and>
       distinct (neighbors (board G' c)) \<and>
       length (neighbors (board G' c)) = 3 * (n * n) - 2 * n - 1 \<and>
       find_sub_square G' (fst c) (snd c) =
         (n * ((fst c - 1) div n) + 1, n * ((snd c - 1) div n) + 1) \<and>
       (\<forall>d \<in> set (neighbors (board G' c)). c \<in> set (neighbors (board G' d))))"
proof -
  from init_board_result [OF assms, of G] obtain G' where
    g: "init_board G n = Inr G'" "N G' = n" "N2 G' = n * n"
       "\<And>c. in_range G' c \<Longrightarrow> neighbors (board G' c) = neighbor_list G' (fst c) (snd c)"
    by blast
  have w: "1 \<le> N G'" "N2 G' = N G' * N G'" using assms(1) g by simp_all
  have "set (neighbors (board G' c)) = {d. is_neighbor G' c d} \<and>
       distinct (neighbors (board G' c)) \<and>
       length (neighbors (board G' c)) = 3 * (n * n) - 2 * n - 1 \<and>
       find_sub_square G' (fst c) (snd c) =
         (n * ((fst c - 1) div n) + 1, n * ((snd c - 1) div n) + 1) \<and>
       (\<forall>d \<in> set (neighbors (board G' c)). c \<in> set (neighbors (board G' d)))"
    if c: "in_range G' c" for c
  proof -
    have s: "set (neighbors (board G' x)) = {d. is_neighbor G' x d}" if "in_range G' x" for x
      using set_neighbor_list [OF w, of "fst x" "snd x"] that g(4) [OF that] by simp
    have "c \<in> set (neighbors (board G' d))" if "d \<in> set (neighbors (board G' c))" for d
    proof -
      from that s [OF c] have n: "is_neighbor G' c d" by simp
      then have "in_range G' d" by (simp add: is_neighbor_def)
      from s [OF this] is_neighbor_sym [OF c n] show ?thesis by simp
    qed
    moreover have "length (neighbors (board G' c)) = 3 * (n * n) - 2 * n - 1"
      using length_neighbor_list [OF w, of "fst c" "snd c"] c g by simp
    moreover have "distinct (neighbors (board G' c))"
      using distinct_neighbor_list [of G' "fst c" "snd c"] g(4) [OF c] by simp
    ultimately show ?thesis
      using s [OF c] by (simp add: find_sub_square_def g(2))
  qed
  with g show ?thesis by blast
qed

theorem init_board_neighbors_witness:
  "(1::nat) \<le> 3 \<and> 3 \<le> MAX_N \<and>
   (\<exists>G'. init_board game 3 = Inr G' \<and> in_range G' (5, 5) \<and>
      length (neighbors (board G' (5, 5))) = 20 \<and>
      find_sub_square G' 5 5 = (4, 4) \<and>
      set (neighbors (board G' (5, 5))) = {d. is_neighbor G' (5, 5) d})"
proof -
  have h: "(1::nat) \<le> 3" "3 \<le> MAX_N" by (simp_all add: MAX_N_def)
  from init_board_neighbors [OF h, of game] obtain G' where
    g: "init_board game 3 = Inr G'" "N G' = 3" "N2 G' = 3 * 3"
    and a: "\<And>c. in_range G' c \<Longrightarrow>
       set (neighbors (board G' c)) = {d. is_neighbor G' c d} \<and>
       distinct (neighbors (board G' c)) \<and>
       length (neighbors (board G' c)) = 3 * (3 * 3) - 2 * 3 - 1 \<and>
       find_sub_square G' (fst c) (snd c) =
         (3 * ((fst c - 1) div 3) + 1, 3 * ((snd c - 1) div 3) + 1) \<and>
       (\<forall>d \<in> set (neighbors (board G' c)). c \<in> set (neighbors (board G' d)))"
    by blast
  have r: "in_range G' (5, 5)" using g by (simp add: in_range_def)
  from a [OF r] g r h show ?thesis by auto
qed

section \<open>Properties of the alphabet maps\<close>

lemma map_alphabet_to_int_table:
  "list_all (\<lambda>i. map_alphabet_to_int (mapToInt ! i) = int i) [1..<65]"
  by (simp add: map_alphabet_to_int_def mapToInt_def upt_rec)

lemma map_alphabet_to_int_nth:
  assumes "1 \<le> i" and "i \<le> 64"
  shows "map_alphabet_to_int (mapToInt ! nat i) = i"
proof -
  from assms have "nat i \<in> set [1..<65]" by auto
  with map_alphabet_to_int_table
  have "map_alphabet_to_int (mapToInt ! nat i) = int (nat i)"
    unfolding list_all_iff by blast
  with assms show ?thesis by simp
qed

lemma in_table_not_minus1:
  "c \<in> set (tl mapToInt) \<Longrightarrow> map_alphabet_to_int c \<noteq> - 1"
  by (auto simp: mapToInt_def map_alphabet_to_int_def)

lemma not_minus1_in_table:
  assumes "map_alphabet_to_int c \<noteq> - 1"
  shows "c \<in> set (tl mapToInt)"
proof -
  define n where "n = (of_char c :: nat)"
  have i: "(of_char c :: int) = int n"
    by (simp add: n_def of_nat_of_char)
  have "n \<in> {49..<58} \<union> {48} \<union> {65..<91} \<union> {97..<123} \<union> {35, 36}"
    using assms unfolding map_alphabet_to_int_def i Let_def
    by (auto split: if_splits)
  also have "{49..<58} \<union> {48} \<union> {65..<91} \<union> {97..<123} \<union> {35, 36}
      = set ([49..<58] @ [48] @ [65..<91] @ [97..<123] @ [35, 36::nat])"
    unfolding set_append set_upt by auto
  also have "([49..<58] @ [48] @ [65..<91] @ [97..<123] @ [35, 36::nat])
      = map of_char (tl mapToInt)"
    by (simp add: upt_rec mapToInt_def)
  finally have "of_char c \<in> (of_char ` set (tl mapToInt) :: nat set)"
    by (simp add: n_def)
  then show ?thesis by (auto simp del: set_simps)
qed

text \<open>
  Claim C10.  On the value range the two alphabet maps are inverse to each other: for a
  game whose alphabet fits the table (\<open>N2 \<le> 64\<close>; the arrays of \<open>Game\<close> hold at most
  \<open>MAX_N2 = 36\<close>) and every \<open>i\<close> with \<open>1 \<le> i \<le> N2\<close>, \<open>map_int_to_alphabet\<close> returns a
  character that \<open>map_alphabet_to_int\<close> maps back to \<open>i\<close>.  Index 0 yields the blank marker
  \<open>-\<close>, which is outside the alphabet, and \<open>map_alphabet_to_int\<close> returns \<open>-1\<close> exactly on
  the characters that are not in the table \<open>1-9, 0, A-Z, a-z, #, $\<close>.
\<close>

theorem alphabet_maps_inverse:
  "(\<forall>i. N2 G \<le> 64 \<and> 1 \<le> i \<and> i \<le> int (N2 G) \<longrightarrow>
        (\<exists>c. map_int_to_alphabet G i = Inr c \<and> map_alphabet_to_int c = i))
   \<and> map_int_to_alphabet G 0 = Inr CHR ''-''
   \<and> map_alphabet_to_int CHR ''-'' = - 1
   \<and> (\<forall>c. (map_alphabet_to_int c = - 1) =
        (c \<notin> set ''1234567890ABCDEFGHIJKLMNOPQRSTUVWXYZabcdefghijklmnopqrstuvwxyz#$''))"
proof -
  have a: "\<exists>c. map_int_to_alphabet G i = Inr c \<and> map_alphabet_to_int c = i"
    if "N2 G \<le> 64 \<and> 1 \<le> i \<and> i \<le> int (N2 G)" for i
  proof -
    from that have r: "1 \<le> i" "i \<le> 64" "nat i < length mapToInt"
      by (auto simp: mapToInt_def)
    from that r have "map_int_to_alphabet G i = Inr (mapToInt ! nat i)"
      by (simp add: map_int_to_alphabet_def)
    with map_alphabet_to_int_nth [OF r(1) r(2)] show ?thesis by simp
  qed
  have b: "map_int_to_alphabet G 0 = Inr CHR ''-''"
    by (simp add: map_int_to_alphabet_def mapToInt_def)
  have c: "map_alphabet_to_int CHR ''-'' = - 1"
    by (simp add: map_alphabet_to_int_def)
  have t: "tl mapToInt = ''1234567890ABCDEFGHIJKLMNOPQRSTUVWXYZabcdefghijklmnopqrstuvwxyz#$''"
    by (simp add: mapToInt_def)
  have d: "(map_alphabet_to_int x = - 1) = (x \<notin> set (tl mapToInt))" for x
    using in_table_not_minus1 [of x] not_minus1_in_table [of x] by blast
  from a b c d show ?thesis unfolding t by blast
qed

theorem alphabet_maps_inverse_witness:
  "N2 (game \<lparr> N := 3, N2 := 9 \<rparr>) \<le> 64 \<and> (1::int) \<le> 5 \<and> (5::int) \<le> int (N2 (game \<lparr> N := 3, N2 := 9 \<rparr>))
   \<and> map_int_to_alphabet (game \<lparr> N := 3, N2 := 9 \<rparr>) 5 = Inr CHR ''5''
   \<and> map_alphabet_to_int CHR ''5'' = 5"
proof -
  let ?G = "game \<lparr> N := 3, N2 := 9 \<rparr>"
  have h: "N2 ?G \<le> 64 \<and> (1::int) \<le> 5 \<and> (5::int) \<le> int (N2 ?G)"
    by simp
  from alphabet_maps_inverse [of ?G] h
  obtain c where c: "map_int_to_alphabet ?G 5 = Inr c" "map_alphabet_to_int c = 5"
    by blast
  have "map_int_to_alphabet ?G 5 = Inr CHR ''5''"
    by (simp add: map_int_to_alphabet_def mapToInt_def)
  with c h show ?thesis by simp
qed

section \<open>The loader\<close>

lemma fgets_take_line:
  "CHR 0x0A \<notin> set l \<Longrightarrow> length l < n \<Longrightarrow>
     fgets_take n (l @ CHR 0x0A # rest) = (l @ [CHR 0x0A], rest)"
proof (induction l arbitrary: n)
  case Nil
  then show ?case by (cases n) auto
next
  case (Cons c l)
  then show ?case by (cases n) auto
qed

lemma fgets_line:
  "fits l \<Longrightarrow> fgets LINESIZE (l @ CHR 0x0A # rest) = Some (l @ [CHR 0x0A], rest)"
  using fgets_take_line [of l "LINESIZE - 1" rest] by (auto simp: fgets_def fits_def)

lemma fgets_take_full:
  "CHR 0x0A \<notin> set l \<Longrightarrow> fgets_take (length l) (l @ rest) = (l, rest)"
  by (induction l) auto

lemma fgets_take_append:
  "infp \<noteq> [] \<Longrightarrow> last infp = CHR 0x0A \<Longrightarrow> fgets_take n infp = (b, r) \<Longrightarrow>
     fgets_take n (infp @ ex) = (b, r @ ex) \<and> (r = [] \<or> last r = CHR 0x0A)"
proof (induction n infp arbitrary: b r rule: fgets_take.induct)
  case (1 cs)
  then show ?case by auto
next
  case (2 n)
  then show ?case by simp
next
  case (3 n c cs)
  show ?case
  proof (cases "c = CHR 0x0A")
    case True
    with "3.prems" show ?thesis by (auto split: if_splits)
  next
    case False
    with "3.prems" have cs: "cs \<noteq> []" "last cs = CHR 0x0A" by (auto split: if_splits)
    obtain b' r' where e: "fgets_take n cs = (b', r')" by (cases "fgets_take n cs")
    from "3.IH" [OF False cs e] "3.prems"(3) False e show ?thesis by auto
  qed
qed

lemma fgets_append:
  "infp \<noteq> [] \<Longrightarrow> last infp = CHR 0x0A \<Longrightarrow> fgets n infp = Some (b, r) \<Longrightarrow>
     fgets n (infp @ ex) = Some (b, r @ ex) \<and> (r = [] \<or> last r = CHR 0x0A)"
  using fgets_take_append [of infp "n - 1" b r ex] by (simp add: fgets_def)

lemma c_str_no_nul: "CHR 0x00 \<notin> set l \<Longrightarrow> c_str l = l"
  by (auto simp: c_str_def)

lemma c_str_nul: "CHR 0x00 \<in> set l \<Longrightarrow> c_str (l @ ex) = c_str l"
  by (simp add: c_str_def takeWhile_append1)

lemma c_str_append: "CHR 0x00 \<notin> set l \<Longrightarrow> c_str (l @ ex) = l @ c_str ex"
proof -
  assume "CHR 0x00 \<notin> set l"
  then have "\<And>x. x \<in> set l \<Longrightarrow> x \<noteq> CHR 0x00" by auto
  then show ?thesis unfolding c_str_def by (rule takeWhile_append2)
qed

lemma c_str_nl:
  "c_str (l @ [CHR 0x0A]) = (if CHR 0x00 \<in> set l then c_str l else c_str l @ [CHR 0x0A])"
proof (cases "CHR 0x00 \<in> set l")
  case True
  then show ?thesis by (simp add: c_str_nul)
next
  case False
  have "c_str [CHR 0x0A] = [CHR 0x0A]" by (simp add: c_str_def)
  with False show ?thesis by (simp add: c_str_append c_str_no_nul)
qed

lemma take_nl:
  assumes "CHR 0x0A \<notin> set p"
  shows "(take (length p) (s @ [CHR 0x0A]) = p) = (take (length p) s = p)"
proof (cases "length p \<le> length s")
  case True
  then show ?thesis by simp
next
  case False
  then have "take (length p) (s @ [CHR 0x0A]) = s @ [CHR 0x0A]" by simp
  moreover have "s @ [CHR 0x0A] \<noteq> p" using assms by auto
  moreover have "take (length p) s \<noteq> p" using False
    by (metis length_take min.cobounded1)
  ultimately show ?thesis by simp
qed

lemma trim_nl: "trim (s @ [CHR 0x0A]) = trim s"
  by (simp add: trim_def isspace_def)

lemma takeWhile_snoc_not: "\<not> P x \<Longrightarrow> takeWhile P (xs @ [x]) = takeWhile P xs"
  by (induction xs) auto

lemma digits_value_nl: "digits_value (s @ [CHR 0x0A]) = digits_value s"
  by (simp add: digits_value_def takeWhile_snoc_not isdigit_def)

lemma strtol_nl: "strtol (s @ [CHR 0x0A]) = strtol s"
proof (cases "dropWhile isspace s")
  case Nil
  then have "\<forall>x \<in> set s. isspace x" by (simp add: dropWhile_eq_Nil_conv)
  then have e: "dropWhile isspace (s @ [CHR 0x0A]) = []"
    by (simp add: dropWhile_eq_Nil_conv isspace_def)
  show ?thesis unfolding strtol_def Nil e by simp
next
  case (Cons c r)
  then have "dropWhile isspace (s @ [CHR 0x0A]) = c # (r @ [CHR 0x0A])"
    by (metis append_Cons dropWhile_append1 dropWhile_eq_Nil_conv list.distinct(1))
  with Cons digits_value_nl [of r] digits_value_nl [of "c # r"] show ?thesis
    by (simp add: strtol_def)
qed

lemma atoi_nl: "atoi (s @ [CHR 0x0A]) = atoi s"
  by (simp add: atoi_def strtol_nl)

lemma take4_directive:
  "(take 4 l = ''//N='') = (take 2 l = ''//'' \<and> take 2 (drop 2 l) = ''N='')"
proof -
  have e: "take 4 l = take 2 l @ take 2 (drop 2 l)"
    by (metis add_2_eq_Suc' numeral_Bit0 take_add)
  show ?thesis
  proof
    assume a: "take 4 l = ''//N=''"
    then have "length (take 4 l) = 4" by simp
    then have n: "length (take 2 l) = length ''//''" by auto
    from a e have "take 2 l @ take 2 (drop 2 l) = ''//'' @ ''N=''" by simp
    with append_eq_append_conv [OF disjI1 [OF n]]
    show "take 2 l = ''//'' \<and> take 2 (drop 2 l) = ''N=''" by blast
  next
    assume "take 2 l = ''//'' \<and> take 2 (drop 2 l) = ''N=''"
    with e show "take 4 l = ''//N=''" by simp
  qed
qed

lemma buf_comment:
  "(take 2 (c_str (l @ [CHR 0x0A])) = ''//'') = (take 2 (c_str l) = ''//'')"
proof -
  have "(take (length ''//'') (c_str l @ [CHR 0x0A]) = ''//'') =
        (take (length ''//'') (c_str l) = ''//'')"
    by (rule take_nl) simp
  moreover have "length ''//'' = 2" by simp
  ultimately have "(take 2 (c_str l @ [CHR 0x0A]) = ''//'') = (take 2 (c_str l) = ''//'')"
    by (simp only:)
  then show ?thesis
    by (cases "CHR 0x00 \<in> set l") (simp_all only: c_str_nl if_True if_False simp_thms)
qed

lemma buf_directive:
  "(take 4 (c_str (l @ [CHR 0x0A])) = ''//N='') = (take 4 (c_str l) = ''//N='')"
proof -
  have "(take (length ''//N='') (c_str l @ [CHR 0x0A]) = ''//N='') =
        (take (length ''//N='') (c_str l) = ''//N='')"
    by (rule take_nl) simp
  moreover have "length ''//N='' = 4" by simp
  ultimately have "(take 4 (c_str l @ [CHR 0x0A]) = ''//N='') = (take 4 (c_str l) = ''//N='')"
    by (simp only:)
  then show ?thesis
    by (cases "CHR 0x00 \<in> set l") (simp_all only: c_str_nl if_True if_False simp_thms)
qed

lemma buf_atoi:
  assumes "take 4 (c_str l) = ''//N=''"
  shows "atoi (drop 4 (c_str (l @ [CHR 0x0A]))) = atoi (drop 4 (c_str l))"
proof -
  from assms have "length (take 4 (c_str l)) = 4" by simp
  then have "4 \<le> length (c_str l)" by simp
  then show ?thesis by (simp add: c_str_nl atoi_nl)
qed

lemma buf_trim: "trim (c_str (l @ [CHR 0x0A])) = trim (c_str l)"
  by (simp add: c_str_nl trim_nl)

lemma get_line_line:
  assumes "fits l"
  shows "get_line G a (l @ CHR 0x0A # rest) =
     (if take 2 (c_str l) = ''//'' then
        (if a \<and> is_directive l then
           (if valid_size (directive_value l) then
              (case init_board G (nat (directive_value l)) of
                 Inl e \<Rightarrow> Inl e
               | Inr G' \<Rightarrow> get_line G' a rest)
            else Inl Format_Error)
         else get_line G a rest)
      else if trim (c_str l) = [] then get_line G a rest
      else Inr (G, trim (c_str l), rest))"
proof -
  have d: "is_directive l = (take 2 (c_str l) = ''//'' \<and> take 2 (drop 2 (c_str l)) = ''N='')"
    by (simp add: is_directive_def take4_directive)
  have d': "(take 2 (c_str (l @ [CHR 0x0A])) = ''//'' \<and>
             take 2 (drop 2 (c_str (l @ [CHR 0x0A]))) = ''N='') = is_directive l"
    using buf_directive [of l] by (simp add: is_directive_def take4_directive)
  show ?thesis
  proof (cases "is_directive l")
    case True
    with d d' have c: "take 2 (c_str l) = ''//''" "take 2 (drop 2 (c_str l)) = ''N=''"
      "take 2 (c_str (l @ [CHR 0x0A])) = ''//''"
      "take 2 (drop 2 (c_str (l @ [CHR 0x0A]))) = ''N=''" by simp_all
    from True have "atoi (drop 4 (c_str (l @ [CHR 0x0A]))) = directive_value l"
      by (simp add: buf_atoi is_directive_def directive_value_def)
    with c True show ?thesis
      by (subst get_line.simps)
        (simp add: fgets_line [OF assms] Let_def valid_size_def)
  next
    case False
    with d d' have c: "\<not> (take 2 (c_str l) = ''//'' \<and> take 2 (drop 2 (c_str l)) = ''N='')"
      "\<not> (take 2 (c_str (l @ [CHR 0x0A])) = ''//'' \<and>
          take 2 (drop 2 (c_str (l @ [CHR 0x0A]))) = ''N='')" by simp_all
    with False buf_comment [of l] show ?thesis
      by (subst get_line.simps)
        (auto simp: fgets_line [OF assms] Let_def buf_trim)
  qed
qed

lemma get_line_skip:
  "fits l \<Longrightarrow> \<not> is_data_line l \<Longrightarrow> \<not> a \<or> \<not> is_directive l \<Longrightarrow>
     get_line G a (l @ CHR 0x0A # rest) = get_line G a rest"
  by (auto simp: get_line_line is_data_line_def)

lemma get_line_data_line:
  "fits l \<Longrightarrow> is_data_line l \<Longrightarrow>
     get_line G a (l @ CHR 0x0A # rest) = Inr (G, trim (c_str l), rest)"
  by (auto simp: get_line_line is_data_line_def)

lemma directive_not_data: "is_directive l \<Longrightarrow> \<not> is_data_line l"
  by (simp add: is_directive_def is_data_line_def take4_directive)

lemma get_line_directive:
  "fits l \<Longrightarrow> is_directive l \<Longrightarrow>
     get_line G True (l @ CHR 0x0A # rest) =
       (if valid_size (directive_value l) then
          (case init_board G (nat (directive_value l)) of
             Inl e \<Rightarrow> Inl e
           | Inr G' \<Rightarrow> get_line G' True rest)
        else Inl Format_Error)"
  by (simp add: get_line_line is_directive_def take4_directive)


lemma unlines_Nil [simp]: "unlines [] = []"
  by (simp add: unlines_def)

lemma unlines_Cons [simp]: "unlines (l # ls) = l @ CHR 0x0A # unlines ls"
  by (simp add: unlines_def)

lemma unlines_append [simp]: "unlines (a @ b) = unlines a @ unlines b"
  by (simp add: unlines_def)

lemma tokens_dropWhile: "tokens (dropWhile isspace cs) = tokens cs"
  by (induction cs) (auto simp: tokens_def)

lemma tokens_trim: "tokens (trim l) = tokens l"
proof -
  have "rev (tokens (rev (dropWhile isspace (rev l)))) = rev (tokens l)"
    using tokens_dropWhile [of "rev l"] by (simp add: tokens_def rev_filter)
  then show ?thesis by (simp add: trim_def)
qed

lemma load_row_error: "load_row G i js cs = Inl e \<Longrightarrow> e = Format_Error"
  by (induction js arbitrary: G cs)
     (auto simp: Let_def split: list.splits if_splits)

lemma load_row_N2: "load_row G i js cs = Inr G' \<Longrightarrow> N2 G' = N2 G \<and> N G' = N G"
  by (induction js arbitrary: G cs)
     (auto simp: Let_def set_square_def split: list.splits if_splits)

lemma load_row_short:
  "length (tokens cs) < length js \<Longrightarrow> load_row G i js cs = Inl Format_Error"
proof (induction js arbitrary: G cs)
  case Nil
  then show ?case by simp
next
  case (Cons j js)
  show ?case
  proof (cases "dropWhile isspace cs")
    case Nil
    show ?thesis unfolding load_row.simps Nil by simp
  next
    case (Cons ch rest)
    then have "\<not> isspace ch" by (metis hd_dropWhile list.sel(1) list.distinct(1))
    with Cons have "tokens cs = ch # tokens rest"
      using tokens_dropWhile [of cs] by (simp add: tokens_def)
    with Cons.prems have "length (tokens rest) < length js" by simp
    from Cons.IH [OF this] Cons show ?thesis by (simp add: Let_def)
  qed
qed

lemma load_row_extra:
  "load_row G i js cs = Inr G' \<Longrightarrow> load_row G i js (cs @ extra) = Inr G'"
proof (induction js arbitrary: G cs)
  case Nil
  then show ?case by simp
next
  case (Cons j js)
  show ?case
  proof (cases "dropWhile isspace cs")
    case Nil
    with Cons.prems show ?thesis unfolding load_row.simps Nil by simp
  next
    case c: (Cons ch rest)
    then have "dropWhile isspace (cs @ extra) = ch # rest @ extra"
      by (metis append_Cons dropWhile_append1 dropWhile_eq_Nil_conv list.distinct(1))
    with c Cons.prems Cons.IH show ?thesis
      by (auto simp: Let_def split: if_splits)
  qed
qed

lemma load_row_ok:
  "row_valid (length js) (N2 G) cs \<Longrightarrow> \<exists>G'. load_row G i js cs = Inr G'"
proof (induction js arbitrary: G cs)
  case Nil
  then show ?case by simp
next
  case (Cons j js)
  from Cons.prems obtain ch rest where
    d: "dropWhile isspace cs = ch # rest"
    and v: "ch = CHR ''-'' \<or>
           (map_alphabet_to_int ch \<noteq> - 1 \<and> map_alphabet_to_int ch \<le> int (N2 G))"
    and r: "row_valid (length js) (N2 G) rest"
    by (auto split: list.splits)
  have n: "N2 (set_square G c p) = N2 G" "N2 (set_square G c p \<lparr> stats := st \<rparr>) = N2 G" for c p st
    by (simp_all add: set_square_def)
  show ?case
    unfolding load_row.simps d list.case Let_def
    using v Cons.IH [of _ rest] r n by auto
qed

lemma init_board_ok:
  "valid_size n \<Longrightarrow>
     \<exists>G'. init_board G (nat n) = Inr G' \<and> N G' = nat n \<and> N2 G' = nat n * nat n \<and> 1 \<le> N2 G'"
proof -
  assume "valid_size n"
  then have a: "1 \<le> nat n" "nat n \<le> MAX_N" "3 \<le> nat n"
    unfolding valid_size_def by linarith+
  from init_board_result [OF a(1,2), of G] obtain G' where
    g: "init_board G (nat n) = Inr G'" "N G' = nat n" "N2 G' = nat n * nat n" by blast
  from g a(1) show ?thesis by auto
qed

lemma get_line_step:
  "fgets LINESIZE infp = Some (b, r) \<Longrightarrow>
   get_line G a infp =
     (let l = c_str b in
      if take 2 l = ''//'' then
        (if \<not> a then get_line G a r
         else if take 2 (drop 2 l) \<noteq> ''N='' then get_line G a r
         else (let n = atoi (drop 4 l) in
               if 3 \<le> n \<and> n \<le> int MAX_N then
                 (case init_board G (nat n) of
                    Inl e \<Rightarrow> Inl e
                  | Inr G' \<Rightarrow> get_line G' a r)
               else Inl Format_Error))
      else (let t = trim l in
            if t = [] then get_line G a r else Inr (G, t, r)))"
  by (subst get_line.simps) simp

lemma get_line_eof: "get_line G a [] = Inl Format_Error"
  by (subst get_line.simps) (simp add: fgets_def)

lemma get_line_append:
  "get_line G a infp = Inr (G1, t, r) \<Longrightarrow> infp = [] \<or> last infp = CHR 0x0A \<Longrightarrow>
     get_line G a (infp @ ex) = Inr (G1, t, r @ ex) \<and> (r = [] \<or> last r = CHR 0x0A)"
proof (induction G a infp rule: get_line.induct)
  case (1 G allowN infp)
  from "1.prems"(1) have ne: "infp \<noteq> []" by (auto simp: get_line_eof)
  with "1.prems"(2) have la: "last infp = CHR 0x0A" by simp
  from ne obtain b r0 where f: "fgets LINESIZE infp = Some (b, r0)"
    by (cases "fgets_take (LINESIZE - 1) infp") (simp add: fgets_def)
  from fgets_append [OF ne la f, of ex] have
    f': "fgets LINESIZE (infp @ ex) = Some (b, r0 @ ex)" and r0: "r0 = [] \<or> last r0 = CHR 0x0A"
    by simp_all
  note ih = "1.IH" [OF f refl refl]
  show ?case
    using "1.prems"(1) r0 ih
    unfolding get_line_step [OF f] get_line_step [OF f'] Let_def
    by (auto split: if_splits sum.splits)
qed

lemma load_rows_append:
  "load_rows G is infp = Inr G' \<Longrightarrow> infp = [] \<or> last infp = CHR 0x0A \<Longrightarrow>
     load_rows G is (infp @ ex) = Inr G'"
proof (induction "is" arbitrary: G infp)
  case Nil
  then show ?case by simp
next
  case (Cons i "is")
  from Cons.prems obtain G1 l r G2 where
    a: "get_line G False infp = Inr (G1, l, r)"
    and b: "load_row G1 i [1..<Suc (N2 G1)] l = Inr G2"
    and c: "load_rows G2 is r = Inr G'"
    by (auto split: sum.splits prod.splits)
  from get_line_append [OF a Cons.prems(2), of ex] have
    a': "get_line G False (infp @ ex) = Inr (G1, l, r @ ex)" and r: "r = [] \<or> last r = CHR 0x0A"
    by simp_all
  from a' b Cons.IH [OF c r] show ?case by simp
qed

lemma load_file_append:
  assumes "load_file G infp a = Inr G'" "infp = [] \<or> last infp = CHR 0x0A"
  shows "load_file G (infp @ ex) a = Inr G'"
proof (cases "N2 G < 1")
  case True
  with assms show ?thesis by (simp add: load_file_def)
next
  case False
  with assms obtain G1 l r G2 where
    a: "get_line G a infp = Inr (G1, l, r)"
    and b: "load_row G1 1 [1..<Suc (N2 G1)] l = Inr G2"
    and c: "load_rows G2 [2..<Suc (N2 G2)] r = Inr G'"
    by (auto simp: load_file_def split: sum.splits prod.splits)
  from get_line_append [OF a assms(2), of ex] have
    a': "get_line G a (infp @ ex) = Inr (G1, l, r @ ex)" and r: "r = [] \<or> last r = CHR 0x0A"
    by simp_all
  from a' b load_rows_append [OF c r, of ex] False
  show ?thesis by (simp add: load_file_def)
qed

lemma load_rows_skip:
  "fits l \<Longrightarrow> \<not> is_data_line l \<Longrightarrow>
     load_rows G is (l @ CHR 0x0A # rest) = load_rows G is rest"
  by (cases "is") (simp_all add: get_line_skip)

lemma load_rows_data:
  "fits l \<Longrightarrow> is_data_line l \<Longrightarrow>
     load_rows G (i # is) (l @ CHR 0x0A # rest) =
       (case load_row G i [1..<Suc (N2 G)] (trim (c_str l)) of
          Inl e \<Rightarrow> Inl e
        | Inr G2 \<Rightarrow> load_rows G2 is rest)"
  by (simp add: get_line_data_line)

lemma load_file_skip:
  "fits l \<Longrightarrow> \<not> is_data_line l \<Longrightarrow> \<not> a \<or> \<not> is_directive l \<Longrightarrow>
     load_file G (l @ CHR 0x0A # rest) a = load_file G rest a"
  by (simp add: load_file_def get_line_skip)

lemma load_file_data:
  "fits l \<Longrightarrow> is_data_line l \<Longrightarrow> 1 \<le> N2 G \<Longrightarrow>
     load_file G (l @ CHR 0x0A # rest) a =
       (case load_row G 1 [1..<Suc (N2 G)] (trim (c_str l)) of
          Inl e \<Rightarrow> Inl e
        | Inr G2 \<Rightarrow> load_rows G2 [2..<Suc (N2 G2)] rest)"
  by (simp add: load_file_def get_line_data_line)

lemma load_file_directive:
  assumes "fits l" "is_directive l" "1 \<le> N2 G"
  shows "load_file G (l @ CHR 0x0A # rest) True =
       (if valid_size (directive_value l) then
          (case init_board G (nat (directive_value l)) of
             Inl e \<Rightarrow> Inl e
           | Inr G' \<Rightarrow> load_file G' rest True)
        else Inl Format_Error)"
proof (cases "valid_size (directive_value l)")
  case True
  from init_board_ok [OF True, of G] obtain G' where
    g: "init_board G (nat (directive_value l)) = Inr G'" "1 \<le> N2 G'" by blast
  with assms True show ?thesis
    by (simp add: load_file_def get_line_directive)
next
  case False
  with assms show ?thesis by (simp add: load_file_def get_line_directive)
qed


lemma load_rows_short:
  assumes "\<forall>l \<in> set ls. fits l" "k < length is" "k < length (data_lines ls)"
    "length (tokens (c_str (data_lines ls ! k))) < N2 G"
  shows "load_rows G is (unlines ls @ rest) = Inl Format_Error"
  using assms
proof (induction ls arbitrary: G "is" k)
  case Nil
  then show ?case by (simp add: data_lines_def)
next
  case (Cons l ls)
  from Cons.prems(2) obtain i is' where i: "is = i # is'" by (cases "is") auto
  from Cons.prems(1) have fl: "fits l" and fls: "\<forall>l \<in> set ls. fits l" by simp_all
  show ?case
  proof (cases "is_data_line l")
    case False
    with Cons.prems have "k < length (data_lines ls)"
      "length (tokens (c_str (data_lines ls ! k))) < N2 G" by (simp_all add: data_lines_def)
    from Cons.IH [OF fls Cons.prems(2) this]
    have "load_rows G is (unlines ls @ rest) = Inl Format_Error" .
    with False fl show ?thesis by (simp add: load_rows_skip)
  next
    case True
    then have d: "data_lines (l # ls) = l # data_lines ls" by (simp add: data_lines_def)
    show ?thesis
    proof (cases "load_row G i [1..<Suc (N2 G)] (trim (c_str l))")
      case (Inl e)
      with load_row_error [OF Inl] True fl show ?thesis
        by (simp add: i load_rows_data del: load_rows.simps upt_Suc)
    next
      case (Inr G2)
      have "k \<noteq> 0"
      proof
        assume "k = 0"
        with Cons.prems(4) d have "length (tokens (trim (c_str l))) < length [1..<Suc (N2 G)]"
          by (simp add: tokens_trim)
        from load_row_short [OF this, of G i] Inr show False by simp
      qed
      then obtain k' where k: "k = Suc k'" by (cases k) auto
      from load_row_N2 [OF Inr] have n: "N2 G2 = N2 G" by simp
      have "load_rows G2 is' (unlines ls @ rest) = Inl Format_Error"
        using Cons.prems(2,3,4) d k n i fls by (intro Cons.IH [of k']) auto
      with True Inr fl show ?thesis
        by (simp add: i load_rows_data del: load_rows.simps upt_Suc)
    qed
  qed
qed

lemma get_line_first_data:
  assumes "\<forall>l \<in> set ls. fits l" "data_lines ls \<noteq> []"
    "get_line G a (unlines ls @ rest) = Inr (G1, t, r)"
  shows "\<exists>raw ls'. data_lines ls = raw # data_lines ls' \<and> t = trim (c_str raw) \<and>
           r = unlines ls' @ rest \<and> (\<forall>l \<in> set ls'. fits l)"
  using assms
proof (induction ls arbitrary: G)
  case Nil
  then show ?case by (simp add: data_lines_def)
next
  case (Cons l ls)
  from Cons.prems(1) have fl: "fits l" and fls: "\<forall>l \<in> set ls. fits l" by simp_all
  show ?case
  proof (cases "is_data_line l")
    case True
    with Cons.prems(3) fl fls show ?thesis
      by (auto simp: get_line_data_line data_lines_def)
  next
    case False
    with Cons.prems(2) have d: "data_lines ls \<noteq> []" "data_lines (l # ls) = data_lines ls"
      by (simp_all add: data_lines_def)
    show ?thesis
    proof (cases "a \<and> is_directive l")
      case True
      with Cons.prems(3) fl obtain G' where
        "get_line G' a (unlines ls @ rest) = Inr (G1, t, r)"
        by (auto simp: get_line_directive split: if_splits sum.splits)
      from Cons.IH [OF fls d(1) this] d(2) show ?thesis by simp
    next
      case f: False
      with False fl Cons.prems(3) have "get_line G a (unlines ls @ rest) = Inr (G1, t, r)"
        by (simp add: get_line_skip)
      from Cons.IH [OF fls d(1) this] d(2) show ?thesis by simp
    qed
  qed
qed

lemma load_file_short:
  assumes "\<forall>l \<in> set ls. fits l" "1 \<le> N2 G"
    "get_line G a (unlines ls @ rest) = Inr (G1, t, r)"
    "k < N2 G1" "k < length (data_lines ls)"
    "length (tokens (c_str (data_lines ls ! k))) < N2 G1"
  shows "load_file G (unlines ls @ rest) a = Inl Format_Error"
proof -
  from assms(5) have "data_lines ls \<noteq> []" by auto
  from get_line_first_data [OF assms(1) this assms(3)] obtain raw ls' where
    d: "data_lines ls = raw # data_lines ls'" and t: "t = trim (c_str raw)"
    and r: "r = unlines ls' @ rest" and f: "\<forall>l \<in> set ls'. fits l"
    by blast
  show ?thesis
  proof (cases "load_row G1 1 [1..<Suc (N2 G1)] t")
    case (Inl e)
    with load_row_error [OF Inl] assms(2,3) show ?thesis by (simp add: load_file_def)
  next
    case ok: (Inr G2)
    have "k \<noteq> 0"
    proof
      assume "k = 0"
      with assms(6) d t have "length (tokens t) < length [1..<Suc (N2 G1)]"
        by (simp add: tokens_trim)
      from load_row_short [OF this, of G1 1] ok show False by simp
    qed
    then obtain k' where k: "k = Suc k'" by (cases k) auto
    from load_row_N2 [OF ok] have n: "N2 G2 = N2 G1" by simp
    have "load_rows G2 [2..<Suc (N2 G2)] (unlines ls' @ rest) = Inl Format_Error"
      using assms(4,5,6) d k n f by (intro load_rows_short [of _ k']) auto
    with assms(2,3) ok r show ?thesis by (simp add: load_file_def)
  qed
qed

lemma load_rows_ok:
  "rows_valid (length is) (N2 G) ls \<Longrightarrow> \<forall>l \<in> set ls. fits l \<Longrightarrow>
     \<exists>G'. load_rows G is (unlines ls @ rest) = Inr G' \<and> N G' = N G \<and> N2 G' = N2 G"
proof (induction ls arbitrary: "is" G)
  case Nil
  then show ?case by (cases "is") auto
next
  case (Cons l ls)
  from Cons.prems(2) have fl: "fits l" and fls: "\<forall>l \<in> set ls. fits l" by simp_all
  show ?case
  proof (cases "is")
    case Nil
    then show ?thesis by simp
  next
    case c: (Cons i is')
    show ?thesis
    proof (cases "is_data_line l")
      case True
      with Cons.prems c have
        rv: "row_valid (length [1..<Suc (N2 G)]) (N2 G) (trim (c_str l))"
        and rs: "rows_valid (length is') (N2 G) ls" by auto
      from load_row_ok [OF rv, of i] obtain G2 where
        g2: "load_row G i [1..<Suc (N2 G)] (trim (c_str l)) = Inr G2" by blast
      from load_row_N2 [OF g2] rs have "rows_valid (length is') (N2 G2) ls" by simp
      from Cons.IH [OF this fls] obtain G' where
        "load_rows G2 is' (unlines ls @ rest) = Inr G'" "N G' = N G2" "N2 G' = N2 G2" by blast
      with g2 c True fl load_row_N2 [OF g2] show ?thesis
        by (simp add: load_rows_data del: load_rows.simps upt_Suc)
    next
      case False
      with Cons.prems c have rs: "rows_valid (length is) (N2 G) ls"
        by auto
      from Cons.IH [OF rs fls] obtain G' where
        "load_rows G is (unlines ls @ rest) = Inr G'" "N G' = N G" "N2 G' = N2 G" by blast
      with False fl show ?thesis by (simp add: load_rows_skip)
    qed
  qed
qed

lemma load_file_ok:
  "rows_valid (N2 G) (N2 G) ls \<Longrightarrow> \<forall>l \<in> set ls. fits l \<Longrightarrow> 1 \<le> N2 G \<Longrightarrow>
     \<exists>G'. load_file G (unlines ls @ rest) a = Inr G' \<and> N G' = N G \<and> N2 G' = N2 G"
proof (induction ls)
  case Nil
  then show ?case by (cases "N2 G") auto
next
  case (Cons l ls)
  from Cons.prems(2) have fl: "fits l" and fls: "\<forall>l \<in> set ls. fits l" by simp_all
  from Cons.prems(3) obtain k where k: "N2 G = Suc k" by (cases "N2 G") auto
  show ?case
  proof (cases "is_data_line l")
    case True
    have len: "length [1..<Suc (N2 G)] = N2 G" by simp
    from True Cons.prems(1) k have
      rv: "row_valid (length [1..<Suc (N2 G)]) (N2 G) (trim (c_str l))"
      and rs: "rows_valid k (N2 G) ls" unfolding len by simp_all
    from load_row_ok [OF rv, of 1] obtain G2 where
      g2: "load_row G 1 [1..<Suc (N2 G)] (trim (c_str l)) = Inr G2" by blast
    from load_row_N2 [OF g2] have n: "N2 G2 = N2 G" "N G2 = N G" by simp_all
    have "length [2..<Suc (N2 G2)] = k" using n k by (simp del: upt_Suc)
    with rs n have "rows_valid (length [2..<Suc (N2 G2)]) (N2 G2) ls" by (simp del: upt_Suc)
    from load_rows_ok [OF this fls, of rest] obtain G' where
      "load_rows G2 [2..<Suc (N2 G2)] (unlines ls @ rest) = Inr G'" "N G' = N G2" "N2 G' = N2 G2"
      by blast
    with g2 True fl n Cons.prems(3) show ?thesis by (simp add: load_file_data del: upt_Suc)
  next
    case False
    with Cons.prems(1) k have nd: "\<not> is_directive l" and rs: "rows_valid (N2 G) (N2 G) ls"
      by auto
    from Cons.IH [OF rs fls Cons.prems(3)] False nd fl show ?thesis
      by (simp add: load_file_skip)
  qed
qed

lemma trim_split: "\<exists>sp. s = trim s @ sp"
proof -
  have "rev (dropWhile isspace (rev s)) @ rev (takeWhile isspace (rev s)) =
        rev (takeWhile isspace (rev s) @ dropWhile isspace (rev s))"
    by (simp only: rev_append)
  also have "\<dots> = s" by (simp only: takeWhile_dropWhile_id rev_rev_ident)
  finally have "s = trim s @ rev (takeWhile isspace (rev s))" by (simp only: trim_def)
  then show ?thesis ..
qed

lemma trim_append: "\<exists>x. trim (s @ e) = trim s @ x"
proof (cases "trim e = []")
  case True
  then have "\<forall>c \<in> set (rev e). isspace c" by (simp add: trim_def dropWhile_eq_Nil_conv)
  then have "trim (s @ e) = trim s" by (simp add: trim_def dropWhile_append)
  then show ?thesis by simp
next
  case False
  then have "\<not> (\<forall>x \<in> set (rev e). isspace x)"
    by (simp add: trim_def dropWhile_eq_Nil_conv)
  then have "dropWhile isspace (rev e @ rev s) = dropWhile isspace (rev e) @ rev s"
    by (simp only: dropWhile_append if_False)
  then have "trim (s @ e) = s @ trim e" by (simp add: trim_def)
  moreover from trim_split [of s] obtain sp where "s = trim s @ sp" ..
  ultimately have "trim (s @ e) = trim s @ (sp @ trim e)" by (metis append_assoc)
  then show ?thesis ..
qed

lemma trim_c_str_extra: "\<exists>x. trim (c_str (d @ extra)) = trim (c_str d) @ x"
proof (cases "CHR 0x00 \<in> set d")
  case True
  then show ?thesis by (simp add: c_str_nul)
next
  case False
  then have "c_str (d @ extra) = c_str d @ c_str extra"
    by (simp add: c_str_append c_str_no_nul)
  with trim_append [of "c_str d" "c_str extra"] show ?thesis by simp
qed

lemma two_tokens_length: "2 \<le> length (tokens s) \<Longrightarrow> 2 \<le> length s"
  unfolding tokens_def using length_filter_le [of "\<lambda>c. \<not> isspace c" s] by linarith

lemma data_line_extra:
  assumes "is_data_line d" "2 \<le> length (tokens (c_str d))"
  shows "is_data_line (d @ extra)"
proof -
  from two_tokens_length [OF assms(2)] have l: "2 \<le> length (c_str d)" .
  have "take 2 (c_str (d @ extra)) = take 2 (c_str d)"
  proof (cases "CHR 0x00 \<in> set d")
    case True
    then show ?thesis by (simp add: c_str_nul)
  next
    case False
    then have "c_str (d @ extra) = c_str d @ c_str extra"
      by (simp add: c_str_append c_str_no_nul)
    with l show ?thesis by simp
  qed
  moreover from trim_c_str_extra [of d extra] obtain x where
    "trim (c_str (d @ extra)) = trim (c_str d) @ x" ..
  ultimately show ?thesis using assms(1) by (simp add: is_data_line_def)
qed

lemma load_rows_replace:
  assumes "fits d" "fits d'" "is_data_line d" "is_data_line d'"
    "trim (c_str d') = trim (c_str d) @ x"
  shows "\<forall>l \<in> set ls. fits l \<Longrightarrow>
     load_rows G is (unlines ls @ d @ CHR 0x0A # rest) = Inr G' \<Longrightarrow>
     load_rows G is (unlines ls @ d' @ CHR 0x0A # rest) = Inr G'"
proof (induction ls arbitrary: G "is")
  case Nil
  show ?case
  proof (cases "is")
    case Nil
    with Nil.prems show ?thesis by simp
  next
    case (Cons i is')
    from Nil.prems(2) obtain G2 where
      g: "load_row G i [1..<Suc (N2 G)] (trim (c_str d)) = Inr G2"
      and r: "load_rows G2 is' rest = Inr G'"
      by (auto simp: Cons load_rows_data [OF assms(1,3)] simp del: load_rows.simps upt_Suc
          split: sum.splits)
    from load_row_extra [OF g, of x] r show ?thesis
      by (simp add: Cons load_rows_data [OF assms(2,4)] assms(5) del: load_rows.simps upt_Suc)
  qed
next
  case (Cons l ls)
  from Cons.prems(1) have fl: "fits l" and fls: "\<forall>l \<in> set ls. fits l" by simp_all
  show ?case
  proof (cases "is")
    case Nil
    with Cons.prems show ?thesis by simp
  next
    case c: (Cons i is')
    show ?thesis
    proof (cases "is_data_line l")
      case True
      from Cons.prems(2) obtain G2 where
        g: "load_row G i [1..<Suc (N2 G)] (trim (c_str l)) = Inr G2"
        and r: "load_rows G2 is' (unlines ls @ d @ CHR 0x0A # rest) = Inr G'"
        by (auto simp: c load_rows_data [OF fl True] simp del: load_rows.simps upt_Suc
            split: sum.splits)
      from g Cons.IH [OF fls r] show ?thesis
        by (simp add: c load_rows_data [OF fl True] del: load_rows.simps upt_Suc)
    next
      case False
      from Cons.prems(2) have "load_rows G is (unlines ls @ d @ CHR 0x0A # rest) = Inr G'"
        by (simp add: load_rows_skip [OF fl False])
      from Cons.IH [OF fls this] show ?thesis
        by (simp add: load_rows_skip [OF fl False])
    qed
  qed
qed

lemma load_file_replace:
  assumes "fits d" "fits d'" "is_data_line d" "is_data_line d'"
    "trim (c_str d') = trim (c_str d) @ x"
  shows "\<forall>l \<in> set ls. fits l \<Longrightarrow>
     load_file G (unlines ls @ d @ CHR 0x0A # rest) a = Inr G' \<Longrightarrow>
     load_file G (unlines ls @ d' @ CHR 0x0A # rest) a = Inr G'"
proof (induction ls arbitrary: G)
  case Nil
  show ?case
  proof (cases "N2 G < 1")
    case True
    with Nil.prems show ?thesis by (simp add: load_file_def)
  next
    case False
    then have n: "1 \<le> N2 G" by simp
    from Nil.prems(2) obtain G2 where
      g: "load_row G 1 [1..<Suc (N2 G)] (trim (c_str d)) = Inr G2"
      and r: "load_rows G2 [2..<Suc (N2 G2)] rest = Inr G'"
      by (auto simp: load_file_data [OF assms(1,3) n] simp del: upt_Suc split: sum.splits)
    from load_row_extra [OF g, of x] r show ?thesis
      by (simp add: load_file_data [OF assms(2,4) n] assms(5) del: upt_Suc)
  qed
next
  case (Cons l ls)
  from Cons.prems(1) have fl: "fits l" and fls: "\<forall>l \<in> set ls. fits l" by simp_all
  show ?case
  proof (cases "N2 G < 1")
    case True
    with Cons.prems show ?thesis by (simp add: load_file_def)
  next
    case False
    then have n: "1 \<le> N2 G" by simp
    show ?thesis
    proof (cases "is_data_line l")
      case True
      from Cons.prems(2) obtain G2 where
        g: "load_row G 1 [1..<Suc (N2 G)] (trim (c_str l)) = Inr G2"
        and r: "load_rows G2 [2..<Suc (N2 G2)] (unlines ls @ d @ CHR 0x0A # rest) = Inr G'"
        by (auto simp: load_file_data [OF fl True n] simp del: upt_Suc split: sum.splits)
      from g load_rows_replace [OF assms fls r] show ?thesis
        by (simp add: load_file_data [OF fl True n] del: upt_Suc)
    next
      case nd: False
      show ?thesis
      proof (cases "a \<and> is_directive l")
        case True
        then have a: "a = True" and dl: "is_directive l" by simp_all
        from Cons.prems(2) obtain G1 where
          v: "valid_size (directive_value l)"
          and g: "init_board G (nat (directive_value l)) = Inr G1"
          and r: "load_file G1 (unlines ls @ d @ CHR 0x0A # rest) a = Inr G'"
          unfolding a by (auto simp: load_file_directive [OF fl dl n] split: if_splits sum.splits)
        from v g Cons.IH [OF fls r] show ?thesis
          unfolding a by (simp add: load_file_directive [OF fl dl n])
      next
        case False
        then have s: "\<not> a \<or> \<not> is_directive l" by simp
        from Cons.prems(2) have "load_file G (unlines ls @ d @ CHR 0x0A # rest) a = Inr G'"
          by (simp add: load_file_skip [OF fl nd s])
        from Cons.IH [OF fls this] show ?thesis
          by (simp add: load_file_skip [OF fl nd s])
      qed
    qed
  qed
qed

lemma load_rows_insert:
  assumes "fits c" "take 2 (c_str c) = ''//''"
  shows "\<forall>l \<in> set ls. fits l \<Longrightarrow>
     load_rows G is (unlines ls @ c @ CHR 0x0A # rest) = load_rows G is (unlines ls @ rest)"
proof (induction ls arbitrary: G "is")
  case Nil
  from assms(2) have "\<not> is_data_line c" by (simp add: is_data_line_def)
  from load_rows_skip [OF assms(1) this] show ?case by simp
next
  case (Cons l ls)
  from Cons.prems(1) have fl: "fits l" and fls: "\<forall>l \<in> set ls. fits l" by simp_all
  show ?case
  proof (cases "is")
    case Nil
    then show ?thesis by simp
  next
    case c: (Cons i is')
    show ?thesis
    proof (cases "is_data_line l")
      case True
      show ?thesis
        using Cons.IH [OF fls]
        by (simp add: c load_rows_data [OF fl True] del: load_rows.simps upt_Suc
            split: sum.splits)
    next
      case False
      show ?thesis
        using Cons.IH [OF fls, of G "is"] by (simp add: load_rows_skip [OF fl False])
    qed
  qed
qed

lemma header_any:
  "\<forall>l \<in> set pre. fits l \<and> \<not> is_data_line l \<Longrightarrow>
     (\<forall>X. get_line G True (unlines pre @ X) = Inl Format_Error) \<or>
     (\<exists>Gp. \<forall>X. get_line G True (unlines pre @ X) = get_line Gp True X)"
proof (induction pre arbitrary: G)
  case Nil
  then show ?case by auto
next
  case (Cons l ls)
  from Cons.prems have fl: "fits l" and nd: "\<not> is_data_line l"
    and fls: "\<forall>l \<in> set ls. fits l \<and> \<not> is_data_line l" by simp_all
  show ?case
  proof (cases "is_directive l")
    case True
    show ?thesis
    proof (cases "valid_size (directive_value l)")
      case v: True
      from init_board_ok [OF v, of G] obtain G1 where
        g: "init_board G (nat (directive_value l)) = Inr G1" by blast
      have e: "get_line G True (unlines (l # ls) @ X) = get_line G1 True (unlines ls @ X)" for X
        using v g by (simp add: get_line_directive [OF fl True])
      from Cons.IH [OF fls, of G1] show ?thesis unfolding e by blast
    next
      case False
      then have "get_line G True (unlines (l # ls) @ X) = Inl Format_Error" for X
        by (simp add: get_line_directive [OF fl True])
      then show ?thesis by blast
    qed
  next
    case False
    have e: "get_line G True (unlines (l # ls) @ X) = get_line G True (unlines ls @ X)" for X
      using False by (simp add: get_line_skip [OF fl nd])
    from Cons.IH [OF fls, of G] show ?thesis unfolding e by blast
  qed
qed

lemma header_valid:
  "\<forall>l \<in> set pre. fits l \<and> \<not> is_data_line l \<and>
       (is_directive l \<longrightarrow> valid_size (directive_value l)) \<Longrightarrow> 1 \<le> N2 G \<Longrightarrow>
     \<exists>Gp. 1 \<le> N2 Gp \<and> (\<forall>X. get_line G True (unlines pre @ X) = get_line Gp True X) \<and>
          ((\<forall>l \<in> set pre. \<not> is_directive l) \<longrightarrow> Gp = G)"
proof (induction pre arbitrary: G)
  case Nil
  then show ?case by simp
next
  case (Cons l ls)
  from Cons.prems have fl: "fits l" and nd: "\<not> is_data_line l"
    and v: "is_directive l \<longrightarrow> valid_size (directive_value l)"
    and fls: "\<forall>l \<in> set ls. fits l \<and> \<not> is_data_line l \<and>
       (is_directive l \<longrightarrow> valid_size (directive_value l))" by simp_all
  show ?case
  proof (cases "is_directive l")
    case True
    with v have v: "valid_size (directive_value l)" by simp
    from init_board_ok [OF v, of G] obtain G1 where
      g: "init_board G (nat (directive_value l)) = Inr G1" "1 \<le> N2 G1" by blast
    have e: "get_line G True (unlines (l # ls) @ X) = get_line G1 True (unlines ls @ X)" for X
      using v g by (simp add: get_line_directive [OF fl True])
    from Cons.IH [OF fls g(2)] True show ?thesis unfolding e by auto
  next
    case False
    have e: "get_line G True (unlines (l # ls) @ X) = get_line G True (unlines ls @ X)" for X
      using False by (simp add: get_line_skip [OF fl nd])
    from Cons.IH [OF fls Cons.prems(2)] False show ?thesis unfolding e by auto
  qed
qed

lemma trim_pad: "trim (s @ replicate n CHR '' '') = trim s"
proof -
  have "dropWhile isspace (rev (replicate n CHR '' '') @ rev s) = dropWhile isspace (rev s)"
    by (simp add: dropWhile_append isspace_def)
  then show ?thesis by (simp add: trim_def)
qed

lemma fits_solved_grid: "\<forall>l \<in> set solved_grid. fits l"
  by (simp add: solved_grid_def fits_def LINESIZE_def)

lemma rows_valid_solved_grid: "rows_valid 9 9 solved_grid"
  by (simp add: solved_grid_def is_data_line_def is_directive_def c_str_def trim_def
      isspace_def map_alphabet_to_int_def eval_nat_numeral)

lemma game3: "\<exists>G. init_board game 3 = Inr G \<and> N G = 3 \<and> N2 G = 9"
  using init_board_result [of 3 game] by (auto simp: MAX_N_def)




section \<open>The size directive\<close>

lemma directive_4: "is_directive ''//N=4''" "directive_value ''//N=4'' = 4" "fits ''//N=4''"
  by (simp_all add: is_directive_def directive_value_def c_str_def atoi_def strtol_def
      digits_value_def isspace_def isdigit_def fits_def LINESIZE_def)

lemma directive_5: "is_directive ''//N=5''" "directive_value ''//N=5'' = 5" "fits ''//N=5''"
  by (simp_all add: is_directive_def directive_value_def c_str_def atoi_def strtol_def
      digits_value_def isspace_def isdigit_def fits_def LINESIZE_def)

lemma directive_3: "is_directive ''//N=3''" "directive_value ''//N=3'' = 3" "fits ''//N=3''"
  by (simp_all add: is_directive_def directive_value_def c_str_def atoi_def strtol_def
      digits_value_def isspace_def isdigit_def fits_def LINESIZE_def)

lemma directive_9: "is_directive ''//N=9''" "directive_value ''//N=9'' = 9" "fits ''//N=9''"
  by (simp_all add: is_directive_def directive_value_def c_str_def atoi_def strtol_def
      digits_value_def isspace_def isdigit_def fits_def LINESIZE_def)

lemma directive_4abc:
  "is_directive ''//N=4abc''" "directive_value ''//N=4abc'' = 4" "fits ''//N=4abc''"
  by (simp_all add: is_directive_def directive_value_def c_str_def atoi_def strtol_def
      digits_value_def isspace_def isdigit_def fits_def LINESIZE_def)

lemma data_123: "fits ''1 2 3''" "is_data_line ''1 2 3''" "trim (c_str ''1 2 3'') = ''1 2 3''"
  by (simp_all add: fits_def LINESIZE_def is_data_line_def c_str_def trim_def isspace_def)

lemma valid_size_simps [simp]:
  "valid_size 3" "valid_size 4" "valid_size 5" "\<not> valid_size 9"
  by (simp_all add: valid_size_def MAX_N_def)




section \<open>Frozen squares are never written\<close>

lemma frozen_kept_refl [simp]: "frozen_kept G G"
  by (simp add: frozen_kept_def)

lemma frozen_kept_trans: "frozen_kept G G' \<Longrightarrow> frozen_kept G' G'' \<Longrightarrow> frozen_kept G G''"
  by (auto simp: frozen_kept_def)

lemma frozen_kept_set_square:
  "\<not> frozen (board G c) \<Longrightarrow> frozen_kept G (set_square G c p)"
  by (auto simp: frozen_kept_def set_square_def)

lemma frozen_kept_stats [simp]: "frozen_kept G (G \<lparr> stats := st \<rparr>)"
  by (simp add: frozen_kept_def)

lemma frozen_kept_find_candidate: "frozen_kept G (snd (find_candidate G row col))"
  by (simp add: find_candidate_def Let_def frozen_kept_set_square)

lemma frozen_kept_find_candidates_fold:
  "frozen_kept G0 G \<Longrightarrow>
   frozen_kept G0 (snd (fold (\<lambda>c (retval, G').
             case find_candidate G' (fst c) (snd c) of
               (ok, G'') \<Rightarrow> (if ok then retval else False, G'')) cs (r, G)))"
proof (induction cs arbitrary: r G)
  case Nil
  then show ?case by simp
next
  case (Cons c cs)
  obtain ok G1 where f: "find_candidate G (fst c) (snd c) = (ok, G1)"
    by (cases "find_candidate G (fst c) (snd c)")
  with frozen_kept_find_candidate [of G "fst c" "snd c"] have "frozen_kept G G1" by simp
  with Cons.prems have "frozen_kept G0 G1" by (rule frozen_kept_trans)
  from Cons.IH [OF this] f show ?case by simp
qed

lemma frozen_kept_find_candidates: "frozen_kept G (snd (find_candidates G))"
  unfolding find_candidates_def by (rule frozen_kept_find_candidates_fold) simp

lemma frozen_kept_freeze_one:
  "\<not> frozen (board G (row, col)) \<Longrightarrow> frozen_kept G (freeze_one G row col piece)"
  by (simp add: freeze_one_def Let_def frozen_kept_set_square)

lemma frozen_kept_freeze_stats:
  "\<not> frozen (board G (row, col)) \<Longrightarrow>
   frozen_kept G ((freeze_one G row col piece) \<lparr> stats := st \<rparr>)"
  by (rule frozen_kept_trans [OF frozen_kept_freeze_one frozen_kept_stats])

lemma frozen_kept_check_fold:
  "frozen_kept G0 G \<Longrightarrow>
   frozen_kept G0 (snd (fold (\<lambda>c (found_one, G').
             let p = board G' c in
             if \<not> frozen p \<and> num_candidates p = 1 then
               (let t = get_first_candidate G' (candidate p 0);
                    G'' = freeze_one G' (fst c) (snd c) t
                in (True,
                    G'' \<lparr> stats := (stats G'') \<lparr> num_frozen_as_only_candidate :=
                             num_frozen_as_only_candidate (stats G'') + 1 \<rparr> \<rparr>))
             else (found_one, G')) cs (r, G)))"
proof (induction cs arbitrary: r G)
  case Nil
  then show ?case by simp
next
  case (Cons c cs)
  show ?case
  proof (cases "\<not> frozen (board G c) \<and> num_candidates (board G c) = 1")
    case True
    then have "frozen_kept G ((freeze_one G (fst c) (snd c) t) \<lparr> stats := st \<rparr>)" for t st
      using frozen_kept_freeze_stats [of G "fst c" "snd c"] by simp
    with Cons.prems have "frozen_kept G0 ((freeze_one G (fst c) (snd c) t) \<lparr> stats := st \<rparr>)" for t st
      by (rule frozen_kept_trans)
    from Cons.IH [OF this] True show ?thesis by (simp add: Let_def)
  next
    case False
    with Cons.IH [OF Cons.prems] show ?thesis by (auto simp: Let_def)
  qed
qed

lemma frozen_kept_check: "frozen_kept G (snd (check_for_only_one_candidate G))"
  unfolding check_for_only_one_candidate_def by (rule frozen_kept_check_fold) simp

lemma index_ok_inner:
  "index_ok G si \<Longrightarrow> \<not> frozen (board G c) \<Longrightarrow>
   index_ok G (fold (\<lambda>k (seen, index).
                          if candidate p 0 AND bit_of k \<noteq> 0
                          then (seen (k := seen k + 1), index (k := c))
                          else (seen, index)) ks si)"
proof (induction ks arbitrary: si)
  case Nil
  then show ?case by simp
next
  case (Cons k ks)
  obtain seen index where si: "si = (seen, index)" by (cases si)
  have "index_ok G (if candidate p 0 AND bit_of k \<noteq> 0
                          then (seen (k := seen k + 1), index (k := c))
                          else (seen, index))"
    using Cons.prems by (auto simp: index_ok_def si)
  from Cons.IH [OF this Cons.prems(2)] show ?case by (simp add: si)
qed

lemma index_ok_scan_fold:
  "index_ok G si \<Longrightarrow>
   index_ok G (fold (\<lambda>c (seen, index).
             let p = board G c in
             if frozen p then (seen, index)
             else fold (\<lambda>k (seen, index).
                          if candidate p 0 AND bit_of k \<noteq> 0
                          then (seen (k := seen k + 1), index (k := c))
                          else (seen, index))
                    ks (seen, index)) cells si)"
proof (induction cells arbitrary: si)
  case Nil
  then show ?case by simp
next
  case (Cons c cells)
  obtain seen index where si: "si = (seen, index)" by (cases si)
  show ?case
  proof (cases "frozen (board G c)")
    case True
    with Cons show ?thesis by (simp add: si Let_def)
  next
    case False
    from index_ok_inner [OF Cons.prems False, of "board G c" ks]
    have "index_ok G (fold (\<lambda>k (seen, index).
                          if candidate (board G c) 0 AND bit_of k \<noteq> 0
                          then (seen (k := seen k + 1), index (k := c))
                          else (seen, index)) ks (seen, index))" by (simp add: si)
    from Cons.IH [OF this] False show ?thesis by (simp add: si Let_def)
  qed
qed

lemma index_ok_scan_unit: "index_ok G (scan_unit G cells)"
  unfolding scan_unit_def by (rule index_ok_scan_fold) (simp add: index_ok_def)

lemma frozen_kept_try_units: "frozen_kept G (snd (try_units G count us))"
proof (induction us)
  case Nil
  then show ?case by simp
next
  case (Cons u us)
  obtain seen index where s: "scan_unit G u = (seen, index)" by (cases "scan_unit G u")
  show ?case
  proof (cases "List.find (\<lambda>k. seen k = 1) [1..<Suc (N2 G)]")
    case None
    with Cons s show ?thesis by simp
  next
    case (Some k)
    then have "seen k = 1" by (auto simp: find_Some_iff)
    with index_ok_scan_unit [of G u] s have "\<not> frozen (board G (index k))"
      by (simp add: index_ok_def)
    then have "frozen_kept G ((freeze_one G (fst (index k)) (snd (index k)) k) \<lparr> stats := st \<rparr>)" for st
      using frozen_kept_freeze_stats [of G "fst (index k)" "snd (index k)"] by simp
    with Some s show ?thesis by (simp add: Let_def)
  qed
qed

lemma frozen_kept_compute_candidate_stats [simp]:
  "frozen_kept G (compute_candidate_stats G b)"
  by (simp add: compute_candidate_stats_def Let_def)

lemma frozen_kept_try_row: "frozen_kept G (snd (try_row_optimization G))"
  unfolding try_row_optimization_def by (rule frozen_kept_try_units)

lemma frozen_kept_try_column: "frozen_kept G (snd (try_column_optimization G))"
  unfolding try_column_optimization_def by (rule frozen_kept_try_units)

lemma frozen_kept_try_subsquare: "frozen_kept G (snd (try_subsquare_optimization G))"
  unfolding try_subsquare_optimization_def by (rule frozen_kept_try_units)

lemma frozen_kept_preprocess_loop:
  assumes "preprocess_loop first_time G = Some r"
  shows "frozen_kept G (snd r)"
proof (rule preprocess_loop.raw_induct [where P = "\<lambda>ft G r. frozen_kept G (snd r)", OF _ assms])
  fix loop :: "bool \<Rightarrow> Game \<Rightarrow> (bool \<times> Game) option"
  fix first_time :: bool and G :: Game and r :: "bool \<times> Game"
  assume IH: "\<And>ft G y. loop ft G = Some y \<Longrightarrow> frozen_kept G (snd y)"
  assume body: "(case find_candidates G of
        (ok, G1) \<Rightarrow>
          (let no_candidates = \<not> ok;
               G2 = (if first_time then compute_candidate_stats G1 True else G1)
           in if no_candidates then Some (no_candidates, G2)
              else (case check_for_only_one_candidate G2 of
                      (c1, G3) \<Rightarrow>
                        if c1 then loop False G3
                        else (case try_row_optimization G3 of
                                (c2, G4) \<Rightarrow>
                                  if c2 then loop False G4
                                  else (case try_column_optimization G4 of
                                          (c3, G5) \<Rightarrow>
                                            if c3 then loop False G5
                                            else (case try_subsquare_optimization G5 of
                                                    (c4, G6) \<Rightarrow>
                                                      if c4 then loop False G6
                                                      else Some (no_candidates, G6))))))) = Some r"
  obtain ok G1 where f1: "find_candidates G = (ok, G1)" by (cases "find_candidates G")
  define G2 where "G2 = (if first_time then compute_candidate_stats G1 True else G1)"
  obtain c1 G3 where f3: "check_for_only_one_candidate G2 = (c1, G3)"
    by (cases "check_for_only_one_candidate G2")
  obtain c2 G4 where f4: "try_row_optimization G3 = (c2, G4)"
    by (cases "try_row_optimization G3")
  obtain c3 G5 where f5: "try_column_optimization G4 = (c3, G5)"
    by (cases "try_column_optimization G4")
  obtain c4 G6 where f6: "try_subsquare_optimization G5 = (c4, G6)"
    by (cases "try_subsquare_optimization G5")
  have k1: "frozen_kept G G1" using frozen_kept_find_candidates [of G] f1 by simp
  have "frozen_kept G1 G2" by (simp add: G2_def)
  with k1 have k2: "frozen_kept G G2" by (rule frozen_kept_trans)
  have "frozen_kept G2 G3" using frozen_kept_check [of G2] f3 by simp
  with k2 have k3: "frozen_kept G G3" by (rule frozen_kept_trans)
  have "frozen_kept G3 G4" using frozen_kept_try_row [of G3] f4 by simp
  with k3 have k4: "frozen_kept G G4" by (rule frozen_kept_trans)
  have "frozen_kept G4 G5" using frozen_kept_try_column [of G4] f5 by simp
  with k4 have k5: "frozen_kept G G5" by (rule frozen_kept_trans)
  have "frozen_kept G5 G6" using frozen_kept_try_subsquare [of G5] f6 by simp
  with k5 have k6: "frozen_kept G G6" by (rule frozen_kept_trans)
  have "r = (\<not> ok, G2) \<or> loop False G3 = Some r \<or> loop False G4 = Some r
    \<or> loop False G5 = Some r \<or> loop False G6 = Some r \<or> r = (\<not> ok, G6)"
    using body unfolding f1 prod.case Let_def G2_def [symmetric] f3 f4 f5 f6
    by (auto split: if_splits)
  then consider (a) "r = (\<not> ok, G2)" | (b) "loop False G3 = Some r" | (c) "loop False G4 = Some r"
    | (d) "loop False G5 = Some r" | (e) "loop False G6 = Some r" | (f) "r = (\<not> ok, G6)"
    by blast
  then show "frozen_kept G (snd r)"
  proof cases
    case a then show ?thesis using k2 by simp
  next
    case b from frozen_kept_trans [OF k3 IH [OF b]] show ?thesis .
  next
    case c from frozen_kept_trans [OF k4 IH [OF c]] show ?thesis .
  next
    case d from frozen_kept_trans [OF k5 IH [OF d]] show ?thesis .
  next
    case e from frozen_kept_trans [OF k6 IH [OF e]] show ?thesis .
  next
    case f then show ?thesis using k6 by simp
  qed
qed

lemma frozen_kept_preprocess_board:
  "preprocess_board G = Some (ok, G') \<Longrightarrow> frozen_kept G G'"
proof -
  assume a: "preprocess_board G = Some (ok, G')"
  then obtain nc G1 where l: "preprocess_loop True G = Some (nc, G1)"
    and g: "G' = compute_candidate_stats G1 False"
    by (auto simp: preprocess_board_def split: option.splits)
  from frozen_kept_preprocess_loop [OF l] have "frozen_kept G G1" by simp
  then show ?thesis unfolding g by (rule frozen_kept_trans) simp
qed

lemma frozen_kept_update_neighbor:
  "update_neighbor G k a d = Inr G' \<Longrightarrow> frozen_kept G G'"
  by (auto simp: update_neighbor_def Let_def frozen_kept_set_square split: if_splits)

lemma frozen_kept_update_neighbors_loop:
  "update_neighbors_loop G k a ds = Inr G' \<Longrightarrow> frozen_kept G G'"
proof (induction ds arbitrary: G)
  case Nil
  then show ?case by simp
next
  case (Cons d ds)
  then obtain G1 where u: "update_neighbor G k a d = Inr G1"
    and r: "update_neighbors_loop G1 k a ds = Inr G'"
    by (auto split: sum.splits)
  from frozen_kept_trans [OF frozen_kept_update_neighbor [OF u] Cons.IH [OF r]]
  show ?case .
qed

lemma frozen_kept_update_neighbors:
  "update_neighbors G row col k a = Inr G' \<Longrightarrow> frozen_kept G G'"
  by (auto simp: update_neighbors_def Let_def split: if_splits
      dest: frozen_kept_update_neighbors_loop)

lemma same_layout_refl [simp]: "same_layout G G"
  by (simp add: same_layout_def)

lemma same_layout_trans: "same_layout G G' \<Longrightarrow> same_layout G' G'' \<Longrightarrow> same_layout G G''"
  by (simp add: same_layout_def)

lemma same_layout_update_neighbor:
  "update_neighbor G k a d = Inr G' \<Longrightarrow> same_layout G G'"
  by (auto simp: update_neighbor_def Let_def same_layout_def set_square_def split: if_splits)

lemma same_layout_update_neighbors_loop:
  "update_neighbors_loop G k a ds = Inr G' \<Longrightarrow> same_layout G G'"
proof (induction ds arbitrary: G)
  case Nil
  then show ?case by simp
next
  case (Cons d ds)
  then obtain G1 where u: "update_neighbor G k a d = Inr G1"
    and r: "update_neighbors_loop G1 k a ds = Inr G'"
    by (auto split: sum.splits)
  from same_layout_trans [OF same_layout_update_neighbor [OF u] Cons.IH [OF r]]
  show ?case .
qed

lemma same_layout_update_neighbors:
  "update_neighbors G row col k a = Inr G' \<Longrightarrow> same_layout G G'"
  by (auto simp: update_neighbors_def Let_def split: if_splits
      dest: same_layout_update_neighbors_loop)

lemma frozen_kept_find_solution_step:
  assumes "find_solution_step s = Inr s'"
  shows "frozen_kept (sgame s) (sgame s')"
proof -
  let ?G = "sgame s" and ?i = "srow s" and ?j = "scol s"
  let ?p = "board ?G (?i, ?j)"
  show ?thesis
  proof (cases "N2 ?G < ?j \<or> frozen ?p")
    case True
    with assms show ?thesis by (auto simp: find_solution_step_def Let_def split: if_splits)
  next
    case False
    show ?thesis
    proof (cases "List.find (\<lambda>k. candidate ?p (nat (topmask ?p)) AND bit_of k \<noteq> 0)
                   [piece_to_place s + 1..<Suc (N2 ?G)]")
      case (Some k)
      with assms False obtain G' where
        u: "update_neighbors (set_square ?G (?i, ?j) (?p \<lparr> cur_value := k \<rparr>)) ?i ?j k False = Inr G'"
        and s': "sgame s' = G'"
        by (auto simp: find_solution_step_def Let_def split: if_splits sum.splits)
      from False have "frozen_kept ?G (set_square ?G (?i, ?j) (?p \<lparr> cur_value := k \<rparr>))"
        by (intro frozen_kept_set_square) simp
      from frozen_kept_trans [OF this frozen_kept_update_neighbors [OF u]] s'
      show ?thesis by simp
    next
      case None
      with assms False obtain i' j' st G' where
        st: "sstack s = (i', j') # st"
        and u: "update_neighbors (?G \<lparr> stats := (stats ?G) \<lparr> num_unstackings :=
                   num_unstackings (stats ?G) + 1 \<rparr> \<rparr>) i' j'
                 (cur_value (board ?G (i', j'))) True = Inr G'"
        and s': "sgame s' = set_square G' (i', j') ((board G' (i', j')) \<lparr> cur_value := 0 \<rparr>)"
        by (auto simp: find_solution_step_def Let_def split: if_splits sum.splits list.splits)
      from u have nf: "\<not> frozen (board ?G (i', j'))"
        by (auto simp: update_neighbors_def Let_def split: if_splits)
      have k1: "frozen_kept ?G G'"
        by (rule frozen_kept_trans [OF frozen_kept_stats frozen_kept_update_neighbors [OF u]])
      have "\<not> frozen (board G' (i', j'))"
      proof
        assume f: "frozen (board G' (i', j'))"
        show False using f nf same_layout_update_neighbors [OF u]
          by (simp add: same_layout_def)
      qed
      then have "frozen_kept G' (sgame s')" unfolding s' by (rule frozen_kept_set_square)
      with k1 show ?thesis by (rule frozen_kept_trans)
    qed
  qed
qed


lemma frozen_kept_find_solution_loop:
  assumes "find_solution_loop s = Some (Inr G')"
  shows "frozen_kept (sgame s) G'"
proof -
  have "\<forall>G'. r = Inr G' \<longrightarrow> frozen_kept (sgame s) G'" if "find_solution_loop s = Some r" for r
  proof (rule find_solution_loop.raw_induct
      [where P = "\<lambda>s r. \<forall>G'. r = Inr G' \<longrightarrow> frozen_kept (sgame s) G'", OF _ that])
    fix loop :: "Search \<Rightarrow> (error + Game) option" and s :: Search and r :: "error + Game"
    assume IH: "\<And>x y. loop x = Some y \<Longrightarrow> \<forall>G'. y = Inr G' \<longrightarrow> frozen_kept (sgame x) G'"
    assume body: "(if N2 (sgame s) < srow s then Some (Inr (sgame s))
      else case find_solution_step s of Inl e \<Rightarrow> Some (Inl e) | Inr s' \<Rightarrow> loop s') = Some r"
    show "\<forall>G'. r = Inr G' \<longrightarrow> frozen_kept (sgame s) G'"
    proof (intro allI impI)
      fix G' assume r: "r = Inr G'"
      show "frozen_kept (sgame s) G'"
      proof (cases "N2 (sgame s) < srow s")
        case True
        with body r show ?thesis by simp
      next
        case False
        with body r obtain s' where st: "find_solution_step s = Inr s'" and l: "loop s' = Some (Inr G')"
          by (auto split: sum.splits)
        from IH [OF l] have "frozen_kept (sgame s') G'" by simp
        with frozen_kept_find_solution_step [OF st] show ?thesis by (rule frozen_kept_trans)
      qed
    qed
  qed
  with assms show ?thesis by blast
qed

lemma frozen_kept_find_solution:
  "find_solution G = Some (Inr G') \<Longrightarrow> frozen_kept G G'"
  using frozen_kept_find_solution_loop
    [of "\<lparr> sgame = G, srow = 1, scol = 1, sstack = [], piece_to_place = 0 \<rparr>" G']
  by (simp add: find_solution_def)

section \<open>What the verifier computes\<close>

lemma count_used_Inr:
  "\<forall>c \<in> set cells. cur_value (board G c) \<le> N2 G \<Longrightarrow>
     count_used G cells used = Inr (\<lambda>k. used k + unit_count G cells k)"
proof (induction cells arbitrary: used)
  case Nil
  then show ?case by (simp add: unit_count_def)
next
  case (Cons c cs)
  then show ?case by (auto simp: unit_count_def Let_def fun_eq_iff)
qed

lemma check_used_iff:
  "check_used full used ks = (\<forall>k \<in> set ks. used k \<le> 1 \<and> (full \<longrightarrow> used k = 1))"
  by (induction ks) auto

lemma verify_unit_eq:
  "\<forall>c \<in> set cells. cur_value (board G c) \<le> N2 G \<Longrightarrow>
     verify_unit G full cells = Inr (unit_ok G full cells)"
  by (simp add: verify_unit_def count_used_Inr check_used_iff unit_ok_def del: upt_Suc)

lemma verify_units_eq:
  "\<forall>u \<in> set us. \<forall>c \<in> set u. cur_value (board G c) \<le> N2 G \<Longrightarrow>
     verify_units G full us = Inr (\<forall>u \<in> set us. unit_ok G full u)"
  by (induction us) (auto simp: verify_unit_eq)

lemma verify_solution_eq:
  assumes "values_in_range G"
  shows "verify_solution G full = Inr (\<forall>u \<in> set (all_units G). unit_ok G full u)"
proof -
  have v: "\<forall>u \<in> set us. \<forall>c \<in> set u. cur_value (board G c) \<le> N2 G" for us
    using assms unfolding values_in_range_def by blast
  show ?thesis
    unfolding verify_solution_def all_units_def verify_units_eq [OF v]
    by (auto simp del: upt_Suc)
qed

lemma verify_solution_dup:
  assumes "values_in_range G" "u \<in> set (all_units G)" "1 \<le> k" "k \<le> N2 G"
    "1 < unit_count G u k"
  shows "verify_solution G False = Inr False"
proof -
  from assms(3,4) have "k \<in> set [1..<Suc (N2 G)]" by (simp del: upt_Suc)
  with assms(5) have "\<not> unit_ok G False u" unfolding unit_ok_def by (metis not_less)
  with assms(2) show ?thesis unfolding verify_solution_eq [OF assms(1)] by blast
qed

section \<open>What the loader leaves\<close>

lemma blank_game_game: "blank_game game"
  by (simp add: blank_game_def game_def zero_square_def)

lemma blank_game_init_board:
  "init_board G n = Inr G' \<Longrightarrow> blank_game G \<Longrightarrow> blank_game G'"
  by (auto simp: init_board_def Let_def blank_game_def split: if_splits)

lemma blank_game_get_line:
  "get_line G a infp = Inr (G1, t, r) \<Longrightarrow> blank_game G \<Longrightarrow> blank_game G1"
proof (induction G a infp rule: get_line.induct)
  case (1 G allowN infp)
  from "1.prems"(1) have ne: "infp \<noteq> []" by (auto simp: get_line_eof)
  then obtain b r0 where f: "fgets LINESIZE infp = Some (b, r0)"
    by (cases "fgets_take (LINESIZE - 1) infp") (simp add: fgets_def)
  note ih = "1.IH" [OF f refl refl]
  show ?case
    using "1.prems" ih blank_game_init_board
    unfolding get_line_step [OF f] Let_def
    by (auto split: if_splits sum.splits)
qed

lemma get_line_False: "get_line G False infp = Inr (G1, t, r) \<Longrightarrow> G1 = G"
proof (induction G False infp rule: get_line.induct)
  case (1 G infp)
  from "1.prems"(1) have ne: "infp \<noteq> []" by (auto simp: get_line_eof)
  then obtain b r0 where f: "fgets LINESIZE infp = Some (b, r0)"
    by (cases "fgets_take (LINESIZE - 1) infp") (simp add: fgets_def)
  note ih = "1.hyps" [OF f refl refl]
  show ?case
    using "1.prems" ih
    unfolding get_line_step [OF f] Let_def
    by (auto split: if_splits sum.splits)
qed

lemma loaded_game_blank: "blank_game G \<Longrightarrow> loaded_game G"
  by (simp add: blank_game_def loaded_game_def values_in_range_def zero_stats_def)

lemma loaded_game_load_row:
  "load_row G i js cs = Inr G' \<Longrightarrow> loaded_game G \<Longrightarrow> loaded_game G'"
proof (induction js arbitrary: G cs)
  case Nil
  then show ?case by simp
next
  case (Cons j js)
  from Cons.prems(1) obtain ch rest where d: "dropWhile isspace cs = ch # rest"
    by (auto split: list.splits)
  let ?p = "board G (i, j)"
  show ?case
  proof (cases "ch = CHR ''-''")
    case True
    let ?G1 = "set_square G (i, j) (?p \<lparr> cur_value := 0, frozen := False,
                   candidate := clear_candidates G (candidate ?p), topmask := - 1 \<rparr>)"
    from Cons.prems(1) d True have l: "load_row ?G1 i js rest = Inr G'" by (simp add: Let_def)
    have "loaded_game ?G1" using Cons.prems(2)
      by (simp add: loaded_game_def values_in_range_def set_square_def)
    from Cons.IH [OF l this] show ?thesis .
  next
    case False
    let ?d = "map_alphabet_to_int ch"
    let ?G1 = "(set_square G (i, j) (?p \<lparr> cur_value := nat ?d, frozen := True,
                   candidate := clear_candidates G (candidate ?p), topmask := - 1 \<rparr>))
               \<lparr> stats := (stats G) \<lparr> num_occupied_squares_originally :=
                      num_occupied_squares_originally (stats G) + 1 \<rparr> \<rparr>"
    from Cons.prems(1) d False have ok: "\<not> (?d = - 1 \<or> ?d > int (N2 G))"
      and l: "load_row ?G1 i js rest = Inr G'" by (auto simp: Let_def split: if_splits)
    from ok have "nat ?d \<le> N2 G" by linarith
    with Cons.prems(2) have "loaded_game ?G1"
      by (simp add: loaded_game_def values_in_range_def set_square_def)
    from Cons.IH [OF l this] show ?thesis .
  qed
qed

lemma loaded_game_load_rows:
  "load_rows G is infp = Inr G' \<Longrightarrow> loaded_game G \<Longrightarrow> loaded_game G'"
proof (induction "is" arbitrary: G infp)
  case Nil
  then show ?case by simp
next
  case (Cons i "is")
  from Cons.prems(1) obtain G1 l r G2 where
    a: "get_line G False infp = Inr (G1, l, r)"
    and b: "load_row G1 i [1..<Suc (N2 G1)] l = Inr G2"
    and c: "load_rows G2 is r = Inr G'"
    by (auto split: sum.splits prod.splits)
  from get_line_False [OF a] b Cons.prems(2) have "loaded_game G2"
    by (auto dest: loaded_game_load_row)
  from Cons.IH [OF c this] show ?case .
qed

lemma loaded_game_load_file:
  assumes "load_file G infp a = Inr G'" "blank_game G"
  shows "loaded_game G'"
proof (cases "N2 G < 1")
  case True
  with assms show ?thesis by (simp add: load_file_def loaded_game_blank)
next
  case False
  with assms(1) obtain G1 l r G2 where
    a: "get_line G a infp = Inr (G1, l, r)"
    and b: "load_row G1 1 [1..<Suc (N2 G1)] l = Inr G2"
    and c: "load_rows G2 [2..<Suc (N2 G2)] r = Inr G'"
    by (auto simp: load_file_def split: sum.splits prod.splits)
  from blank_game_get_line [OF a assms(2)] have "loaded_game G1" by (rule loaded_game_blank)
  from loaded_game_load_row [OF b this] have "loaded_game G2" .
  from loaded_game_load_rows [OF c this] show ?thesis .
qed


lemma tokens_Cons:
  assumes "dropWhile isspace cs = ch # rest"
  shows "tokens cs = ch # tokens rest"
proof -
  from assms have "\<not> isspace ch" by (metis hd_dropWhile list.sel(1) list.distinct(1))
  with assms tokens_dropWhile [of cs] show ?thesis by (simp add: tokens_def)
qed

lemma load_row_cells:
  "load_row G i js cs = Inr G' \<Longrightarrow> distinct js \<Longrightarrow>
     (\<forall>n < length js.
        cur_value (board G' (i, js ! n)) = tokval (tokens cs ! n) \<and>
        frozen (board G' (i, js ! n)) = (tokens cs ! n \<noteq> CHR ''-'')) \<and>
     (\<forall>c. \<not> (fst c = i \<and> snd c \<in> set js) \<longrightarrow> board G' c = board G c)"
proof (induction js arbitrary: G cs)
  case Nil
  then show ?case by simp
next
  case (Cons j js)
  from Cons.prems(1) obtain ch rest where d: "dropWhile isspace cs = ch # rest"
    by (auto split: list.splits)
  note tk = tokens_Cons [OF d]
  from Cons.prems(2) have dj: "distinct js" "j \<notin> set js" by simp_all
  let ?p = "board G (i, j)"
  define G1 where "G1 =
    (if ch = CHR ''-'' then
       set_square G (i, j) (?p \<lparr> cur_value := 0, frozen := False,
                   candidate := clear_candidates G (candidate ?p), topmask := - 1 \<rparr>)
     else (set_square G (i, j) (?p \<lparr> cur_value := nat (map_alphabet_to_int ch), frozen := True,
                   candidate := clear_candidates G (candidate ?p), topmask := - 1 \<rparr>))
               \<lparr> stats := (stats G) \<lparr> num_occupied_squares_originally :=
                      num_occupied_squares_originally (stats G) + 1 \<rparr> \<rparr>)"
  from Cons.prems(1) d have l: "load_row G1 i js rest = Inr G'"
    by (auto simp: Let_def G1_def split: if_splits)
  have b1: "cur_value (board G1 (i, j)) = tokval ch" "frozen (board G1 (i, j)) = (ch \<noteq> CHR ''-'')"
    "\<And>c. c \<noteq> (i, j) \<Longrightarrow> board G1 c = board G c"
    by (simp_all add: G1_def set_square_def tokval_def)
  from Cons.IH [OF l dj(1)] have
    ih1: "\<And>n. n < length js \<Longrightarrow>
        cur_value (board G' (i, js ! n)) = tokval (tokens rest ! n) \<and>
        frozen (board G' (i, js ! n)) = (tokens rest ! n \<noteq> CHR ''-'')"
    and ih2: "\<And>c. \<not> (fst c = i \<and> snd c \<in> set js) \<Longrightarrow> board G' c = board G1 c"
    by blast+
  have "cur_value (board G' (i, (j # js) ! n)) = tokval (tokens cs ! n) \<and>
        frozen (board G' (i, (j # js) ! n)) = (tokens cs ! n \<noteq> CHR ''-'')"
    if "n < length (j # js)" for n
  proof (cases n)
    case 0
    with ih2 [of "(i, j)"] dj(2) b1 tk show ?thesis by simp
  next
    case (Suc n')
    with that ih1 [of n'] tk show ?thesis by simp
  qed
  moreover have "board G' c = board G c" if "\<not> (fst c = i \<and> snd c \<in> set (j # js))" for c
  proof -
    from that have "\<not> (fst c = i \<and> snd c \<in> set js)" "c \<noteq> (i, j)" by auto
    with ih2 [of c] b1(3) [of c] show ?thesis by simp
  qed
  ultimately show ?case by blast
qed

lemma load_rows_frame:
  "load_rows G is infp = Inr G' \<Longrightarrow> fst c \<notin> set is \<Longrightarrow> board G' c = board G c"
proof (induction "is" arbitrary: G infp)
  case Nil
  then show ?case by simp
next
  case (Cons i "is")
  from Cons.prems(1) obtain G1 l r G2 where
    a: "get_line G False infp = Inr (G1, l, r)"
    and b: "load_row G1 i [1..<Suc (N2 G1)] l = Inr G2"
    and c: "load_rows G2 is r = Inr G'"
    by (auto split: sum.splits prod.splits)
  from get_line_False [OF a] have g: "G1 = G" .
  from load_row_cells [OF b distinct_upt]
  have "\<not> (fst c = i \<and> snd c \<in> set [1..<Suc (N2 G1)]) \<longrightarrow> board G2 c = board G1 c"
    by blast
  with Cons.prems(2) g have "board G2 c = board G c" by simp
  with Cons.IH [OF c] Cons.prems(2) show ?case by simp
qed

lemma rows_valid_length: "rows_valid k m ls \<Longrightarrow> k \<le> length (data_lines ls)"
  by (induction k m ls rule: rows_valid.induct) (auto simp: data_lines_def split: if_splits)

lemma load_rows_cells:
  "\<forall>l \<in> set ls. fits l \<Longrightarrow> load_rows G is (unlines ls @ rest) = Inr G' \<Longrightarrow> distinct is \<Longrightarrow>
   length is \<le> length (data_lines ls) \<Longrightarrow> n < length is \<Longrightarrow> m < N2 G \<Longrightarrow>
     cur_value (board G' (is ! n, Suc m)) = tokval (tokens (c_str (data_lines ls ! n)) ! m) \<and>
     frozen (board G' (is ! n, Suc m)) = (tokens (c_str (data_lines ls ! n)) ! m \<noteq> CHR ''-'')"
proof (induction ls arbitrary: G "is" n)
  case Nil
  then show ?case by (simp add: data_lines_def)
next
  case (Cons l ls)
  from Cons.prems(1) have fl: "fits l" and fls: "\<forall>l \<in> set ls. fits l" by simp_all
  from Cons.prems(5) obtain i is' where i: "is = i # is'" by (cases "is") auto
  show ?case
  proof (cases "is_data_line l")
    case False
    then have d: "data_lines (l # ls) = data_lines ls" by (simp add: data_lines_def)
    from Cons.prems(2) have "load_rows G is (unlines ls @ rest) = Inr G'"
      by (simp add: load_rows_skip [OF fl False])
    from Cons.IH [OF fls this Cons.prems(3) _ Cons.prems(5,6)] Cons.prems(4) d
    show ?thesis by simp
  next
    case True
    then have d: "data_lines (l # ls) = l # data_lines ls" by (simp add: data_lines_def)
    from Cons.prems(2) obtain G2 where
      g: "load_row G i [1..<Suc (N2 G)] (trim (c_str l)) = Inr G2"
      and r: "load_rows G2 is' (unlines ls @ rest) = Inr G'"
      by (auto simp: i load_rows_data [OF fl True] simp del: load_rows.simps upt_Suc
          split: sum.splits)
    from load_row_N2 [OF g] have n2: "N2 G2 = N2 G" by simp
    from Cons.prems(3) i have di: "distinct is'" "i \<notin> set is'" by simp_all
    show ?thesis
    proof (cases n)
      case 0
      have "(i, Suc m) = (i, [1..<Suc (N2 G)] ! m)" using Cons.prems(6)
        by (simp add: nth_upt del: upt_Suc)
      moreover have "m < length [1..<Suc (N2 G)]" using Cons.prems(6) by simp
      moreover from load_row_cells [OF g distinct_upt]
      have "\<forall>n < length [1..<Suc (N2 G)].
        cur_value (board G2 (i, [1..<Suc (N2 G)] ! n)) = tokval (tokens (trim (c_str l)) ! n) \<and>
        frozen (board G2 (i, [1..<Suc (N2 G)] ! n)) = (tokens (trim (c_str l)) ! n \<noteq> CHR ''-'')"
        by blast
      ultimately have "cur_value (board G2 (i, Suc m)) = tokval (tokens (trim (c_str l)) ! m) \<and>
        frozen (board G2 (i, Suc m)) = (tokens (trim (c_str l)) ! m \<noteq> CHR ''-'')"
        by (simp only:)
      moreover have "board G' (i, Suc m) = board G2 (i, Suc m)"
        using load_rows_frame [OF r, of "(i, Suc m)"] di(2) by simp
      ultimately show ?thesis using 0 i d by (simp add: tokens_trim)
    next
      case (Suc n')
      with Cons.prems(4,5) i d have "length is' \<le> length (data_lines ls)" "n' < length is'"
        by simp_all
      from Cons.IH [OF fls r di(1) this] Cons.prems(6) n2 Suc i d show ?thesis by simp
    qed
  qed
qed

lemma load_file_rows:
  "rows_valid (N2 G) (N2 G) ls \<Longrightarrow> \<forall>l \<in> set ls. fits l \<Longrightarrow> 1 \<le> N2 G \<Longrightarrow>
     load_file G (unlines ls @ rest) a = load_rows G [1..<Suc (N2 G)] (unlines ls @ rest)"
proof (induction ls)
  case Nil
  then show ?case by (cases "N2 G") auto
next
  case (Cons l ls)
  from Cons.prems(2) have fl: "fits l" and fls: "\<forall>l \<in> set ls. fits l" by simp_all
  from Cons.prems(3) obtain k where k: "N2 G = Suc k" by (cases "N2 G") auto
  have u: "[1..<Suc (N2 G)] = 1 # [2..<Suc (N2 G)]"
    using Cons.prems(3) by (simp add: upt_rec numeral_2_eq_2 del: upt_Suc)
  show ?case
  proof (cases "is_data_line l")
    case True
    have "load_rows G (1 # [2..<Suc (N2 G)]) (unlines (l # ls) @ rest) =
       (case load_row G 1 [1..<Suc (N2 G)] (trim (c_str l)) of
          Inl e \<Rightarrow> Inl e
        | Inr G2 \<Rightarrow> load_rows G2 [2..<Suc (N2 G)] (unlines ls @ rest))"
      by (simp add: load_rows_data [OF fl True] del: load_rows.simps upt_Suc)
    moreover have "load_file G (unlines (l # ls) @ rest) a =
       (case load_row G 1 [1..<Suc (N2 G)] (trim (c_str l)) of
          Inl e \<Rightarrow> Inl e
        | Inr G2 \<Rightarrow> load_rows G2 [2..<Suc (N2 G2)] (unlines ls @ rest))"
      by (simp add: load_file_data [OF fl True Cons.prems(3)] del: upt_Suc)
    ultimately show ?thesis unfolding u [symmetric]
      by (auto split: sum.splits dest: load_row_N2 simp del: upt_Suc)
  next
    case False
    with Cons.prems(1) k have nd: "\<not> is_directive l" and rs: "rows_valid (N2 G) (N2 G) ls"
      by auto
    from Cons.IH [OF rs fls Cons.prems(3)] False nd fl show ?thesis
      by (simp add: load_file_skip load_rows_skip del: upt_Suc)
  qed
qed

lemma load_file_cells:
  assumes "rows_valid (N2 G) (N2 G) ls" "\<forall>l \<in> set ls. fits l" "1 \<le> N2 G"
    "load_file G (unlines ls @ rest) a = Inr G'" "n < N2 G" "m < N2 G"
  shows "cur_value (board G' (Suc n, Suc m)) = tokval (tokens (c_str (data_lines ls ! n)) ! m) \<and>
     frozen (board G' (Suc n, Suc m)) = (tokens (c_str (data_lines ls ! n)) ! m \<noteq> CHR ''-'')"
proof -
  from assms(4) load_file_rows [OF assms(1,2,3), of rest a]
  have l: "load_rows G [1..<Suc (N2 G)] (unlines ls @ rest) = Inr G'" by simp
  have len: "length [1..<Suc (N2 G)] \<le> length (data_lines ls)"
    using rows_valid_length [OF assms(1)] by simp
  have n: "n < length [1..<Suc (N2 G)]" using assms(5) by simp
  have e: "[1..<Suc (N2 G)] ! n = Suc n" using assms(5) by (simp add: nth_upt del: upt_Suc)
  from load_rows_cells [OF assms(2) l distinct_upt len n assms(6)] show ?thesis
    unfolding e .
qed

lemma unit_count_two:
  assumes "c \<in> set u" "d \<in> set u" "c \<noteq> d"
    "cur_value (board G c) = k" "cur_value (board G d) = k"
  shows "1 < unit_count G u k"
proof -
  let ?f = "filter (\<lambda>c. cur_value (board G c) = k) u"
  from assms have "{c, d} \<subseteq> set ?f" by simp
  then have "card {c, d} \<le> card (set ?f)" by (intro card_mono) simp_all
  also have "\<dots> \<le> length ?f" by (rule card_length)
  finally show ?thesis using assms(3) by (simp add: unit_count_def)
qed

lemma origins_from_cong:
  "N G' = N G \<Longrightarrow> N2 G' = N2 G \<Longrightarrow> origins_from G' i = origins_from G i"
proof (induction G i rule: origins_from.induct)
  case (1 G i)
  show ?case
  proof (cases "N G = 0 \<or> N2 G < i")
    case True
    with 1(2,3) show ?thesis
      by (subst origins_from.simps, subst (2) origins_from.simps) simp
  next
    case False
    with 1 show ?thesis
      by (subst origins_from.simps, subst (2) origins_from.simps) simp
  qed
qed

lemma all_units_cong:
  assumes "N G' = N G" "N2 G' = N2 G"
  shows "all_units G' = all_units G"
proof -
  have o: "origins_from G' 1 = origins_from G 1" by (rule origins_from_cong [OF assms])
  have "row_squares G' = row_squares G" "column_squares G' = column_squares G"
    "subsquare_squares G' = subsquare_squares G"
    unfolding row_squares_def column_squares_def subsquare_squares_def assms by (rule refl)+
  then show ?thesis unfolding all_units_def subsquare_origins_def o assms by (simp only:)
qed

lemma solve_invalid_setup:
  assumes "values_in_range G0" "u \<in> set (all_units G0)" "c \<in> set u" "d \<in> set u" "c \<noteq> d"
    "cur_value (board G0 c) = cur_value (board G0 d)" "cur_value (board G0 c) \<noteq> 0"
  shows "solve G0 = Some (Inr (Invalid_Setup, save_board G0))"
proof -
  let ?G = "save_board G0" and ?k = "cur_value (board G0 c)"
  have v: "values_in_range ?G" using assms(1) by (simp add: values_in_range_def save_board_def)
  have "all_units ?G = all_units G0" by (rule all_units_cong) (simp_all add: save_board_def)
  with assms(2) have u: "u \<in> set (all_units ?G)" by simp
  from assms(1) have "?k \<le> N2 G0" unfolding values_in_range_def by blast
  with assms(7) have k: "1 \<le> ?k" "?k \<le> N2 ?G" by (simp_all add: save_board_def)
  have "1 < unit_count ?G u ?k"
    using assms(6) by (intro unit_count_two [OF assms(3,4,5)]) (simp_all add: save_board_def)
  from verify_solution_dup [OF v u k this] show ?thesis
    by (simp add: solve_def)
qed

lemma game3_blank: "init_board game 3 = Inr G \<Longrightarrow> blank_game G"
  using blank_game_init_board [OF _ blank_game_game] .

lemma loaded_game_stats:
  assumes "loaded_game G"
  shows "sum_num_candidates_originally (stats G) = 0"
    "num_frozen_as_only_candidate (stats G) = 0"
    "num_frozen_by_row_optimization (stats G) = 0"
    "num_frozen_by_column_optimization (stats G) = 0"
    "num_frozen_by_subsquare_optimization (stats G) = 0"
    "sum_num_candidates_after_optimization (stats G) = 0"
    "num_unstackings (stats G) = 0"
proof -
  from assms have e: "(stats G) \<lparr> num_occupied_squares_originally := 0 \<rparr> = zero_stats"
    by (simp add: loaded_game_def)
  have "sum_num_candidates_originally ((stats G) \<lparr> num_occupied_squares_originally := 0 \<rparr>) = 0"
    "num_frozen_as_only_candidate ((stats G) \<lparr> num_occupied_squares_originally := 0 \<rparr>) = 0"
    "num_frozen_by_row_optimization ((stats G) \<lparr> num_occupied_squares_originally := 0 \<rparr>) = 0"
    "num_frozen_by_column_optimization ((stats G) \<lparr> num_occupied_squares_originally := 0 \<rparr>) = 0"
    "num_frozen_by_subsquare_optimization ((stats G) \<lparr> num_occupied_squares_originally := 0 \<rparr>) = 0"
    "sum_num_candidates_after_optimization ((stats G) \<lparr> num_occupied_squares_originally := 0 \<rparr>) = 0"
    "num_unstackings ((stats G) \<lparr> num_occupied_squares_originally := 0 \<rparr>) = 0"
    unfolding e by (simp_all add: zero_stats_def)
  then show "sum_num_candidates_originally (stats G) = 0"
    "num_frozen_as_only_candidate (stats G) = 0"
    "num_frozen_by_row_optimization (stats G) = 0"
    "num_frozen_by_column_optimization (stats G) = 0"
    "num_frozen_by_subsquare_optimization (stats G) = 0"
    "sum_num_candidates_after_optimization (stats G) = 0"
    "num_unstackings (stats G) = 0"
    by simp_all
qed

text \<open>
  Claim C6.  Let \<open>G0\<close> be the game that \<open>main\<close> has loaded from the input file.  When two
  different squares of one unit (a row, a column or a subsquare, as \<open>verify_solution\<close>
  visits them) hold the same value other than \<open>0\<close>, \<open>main\<close> returns normally with the
  message of the invalid setup, and the game it leaves is the loaded game with its board
  saved: the board is the loaded board, and the counters of the preprocessing rules and
  of the search are all \<open>0\<close>.
\<close>

theorem invalid_setup:
  assumes "init_board game 3 = Inr G" "load_file G infp True = Inr G0"
    and "u \<in> set (all_units G0)" "c \<in> set u" "d \<in> set u" "c \<noteq> d"
    and "cur_value (board G0 c) = cur_value (board G0 d)" "cur_value (board G0 c) \<noteq> 0"
  shows "main infp = Some (Inr (Invalid_Setup, save_board G0)) \<and>
     board (save_board G0) = board G0 \<and>
     sum_num_candidates_originally (stats (save_board G0)) = 0 \<and>
     num_frozen_as_only_candidate (stats (save_board G0)) = 0 \<and>
     num_frozen_by_row_optimization (stats (save_board G0)) = 0 \<and>
     num_frozen_by_column_optimization (stats (save_board G0)) = 0 \<and>
     num_frozen_by_subsquare_optimization (stats (save_board G0)) = 0 \<and>
     sum_num_candidates_after_optimization (stats (save_board G0)) = 0 \<and>
     num_unstackings (stats (save_board G0)) = 0"
proof -
  from loaded_game_load_file [OF assms(2) game3_blank [OF assms(1)]] have l: "loaded_game G0" .
  then have v: "values_in_range G0" by (simp add: loaded_game_def)
  from solve_invalid_setup [OF v assms(3-8)] assms(1,2)
  have "main infp = Some (Inr (Invalid_Setup, save_board G0))" by (simp add: main_def)
  with loaded_game_stats [OF l] show ?thesis by (simp add: save_board_def)
qed

theorem invalid_setup_witness:
  "\<exists>G G0. init_board game 3 = Inr G \<and> load_file G (unlines dup_grid) True = Inr G0 \<and>
      row_squares G0 1 \<in> set (all_units G0) \<and>
      (1, 1) \<in> set (row_squares G0 1) \<and> (1, 2) \<in> set (row_squares G0 1) \<and>
      cur_value (board G0 (1, 1)) = 5 \<and> cur_value (board G0 (1, 2)) = 5 \<and>
      main (unlines dup_grid) = Some (Inr (Invalid_Setup, save_board G0)) \<and>
      num_unstackings (stats (save_board G0)) = 0"
proof -
  from game3 obtain G where g: "init_board game 3 = Inr G" "N G = 3" "N2 G = 9" by blast
  have f: "\<forall>l \<in> set dup_grid. fits l" by (simp add: dup_grid_def fits_def LINESIZE_def)
  have rv: "rows_valid (N2 G) (N2 G) dup_grid"
    unfolding g by (simp add: dup_grid_def is_data_line_def is_directive_def c_str_def
        trim_def isspace_def map_alphabet_to_int_def eval_nat_numeral)
  have n: "1 \<le> N2 G" using g by simp
  from load_file_ok [OF rv f n, of "[]" True] g obtain G0 where
    l: "load_file G (unlines dup_grid) True = Inr G0" and n0: "N2 G0 = 9" by auto
  then have l': "load_file G (unlines dup_grid @ []) True = Inr G0" by simp
  have d0: "data_lines dup_grid ! 0 = ''5 5 -   - - -   - - -''"
    by (simp add: dup_grid_def data_lines_def is_data_line_def c_str_def trim_def isspace_def)
  have t0: "tokens (c_str ''5 5 -   - - -   - - -'') = ''55-------''"
    by (simp add: tokens_def c_str_def isspace_def)
  have v5: "tokval CHR ''5'' = 5" by (simp add: tokval_def map_alphabet_to_int_def)
  from load_file_cells [OF rv f n l', of 0 0] g(3)
  have c1: "cur_value (board G0 (1, 1)) = 5" by (simp add: d0 t0 v5)
  from load_file_cells [OF rv f n l', of 0 1] g(3)
  have c2: "cur_value (board G0 (1, 2)) = 5" by (simp add: d0 t0 v5 numeral_2_eq_2)
  have u: "row_squares G0 1 \<in> set (all_units G0)"
    by (simp add: all_units_def n0)
  have m: "(1, 1) \<in> set (row_squares G0 1)" "(1, 2) \<in> set (row_squares G0 1)"
    by (simp_all add: row_squares_def n0)
  have ne: "(1::nat, 1::nat) \<noteq> (1, 2)" by simp
  from invalid_setup [OF g(1) l u m ne] c1 c2
  have "main (unlines dup_grid) = Some (Inr (Invalid_Setup, save_board G0)) \<and>
     num_unstackings (stats (save_board G0)) = 0" by simp
  with g(1) l u m c1 c2 show ?thesis by blast
qed

end
